theory Spec2Isabelle
  imports Main "HOL-Library.Sublist"
begin

section \<open>Python strings\<close>

text \<open>
  A Python \<open>str\<close> is modelled as a HOL \<open>string\<close>: each \<open>char\<close> stands for the code
  point with the same number, so the model covers texts over the code points below 256.
\<close>

definition isspace :: "char \<Rightarrow> bool" where
  \<comment> \<open>\<open>str.isspace\<close> on one code point below 256\<close>
  "isspace c = (let n = (of_char c :: nat) in
     (9 \<le> n \<and> n \<le> 13) \<or> (28 \<le> n \<and> n \<le> 32) \<or> n = 133 \<or> n = 160)"

definition rstrip :: "(char \<Rightarrow> bool) \<Rightarrow> string \<Rightarrow> string" where
  "rstrip p s = rev (dropWhile p (rev s))"

definition strip :: "string \<Rightarrow> string" where
  \<comment> \<open>\<open>s.strip()\<close>\<close>
  "strip s = rstrip isspace (dropWhile isspace s)"

definition lower_char :: "char \<Rightarrow> char" where
  \<comment> \<open>\<open>str.lower\<close> on one code point below 256: A-Z and the Latin-1 capitals\<close>
  "lower_char c = (let n = (of_char c :: nat) in
     if (65 \<le> n \<and> n \<le> 90) \<or> (192 \<le> n \<and> n \<le> 222 \<and> n \<noteq> 215)
     then char_of (n + 32) else c)"

definition lower :: "string \<Rightarrow> string" where
  "lower s = map lower_char s"

definition startswith :: "string \<Rightarrow> string \<Rightarrow> bool" where
  \<comment> \<open>\<open>s.startswith(p)\<close>\<close>
  "startswith s p = prefix p s"

fun contains :: "string \<Rightarrow> string \<Rightarrow> bool" where
  \<comment> \<open>\<open>p in s\<close> on strings\<close>
  "contains p [] = (p = [])"
| "contains p (c # cs) = (prefix p (c # cs) \<or> contains p cs)"

fun py_split :: "char \<Rightarrow> string \<Rightarrow> string list" where
  \<comment> \<open>\<open>s.split(sep)\<close> for a separator of one character\<close>
  "py_split sep [] = [[]]"
| "py_split sep (c # cs) =
     (if c = sep then [] # py_split sep cs
      else (case py_split sep cs of [] \<Rightarrow> [[c]] | l # ls \<Rightarrow> (c # l) # ls))"

fun py_join :: "string \<Rightarrow> string list \<Rightarrow> string" where
  \<comment> \<open>\<open>sep.join(xs)\<close>\<close>
  "py_join sep [] = []"
| "py_join sep [x] = x"
| "py_join sep (x # y # ys) = x @ sep @ py_join sep (y # ys)"

definition newline :: char where
  "newline = CHR 0x0A"

section \<open>The chunker (src/utils/chunker.py)\<close>

datatype pyval = PyStr string | PyInt int | PyBool bool

type_synonym metadata = "string \<rightharpoonup> pyval"

record chunk =
  content :: string
  metadata :: metadata
  tokens :: int

text \<open>
  \<open>SmartChunker\<close>. The tokenizer (tiktoken) and the sentence splitter (LlamaIndex) are
  libraries outside the repository, taken as parameters: \<open>encode\<close> is
  \<open>self.encoding.encode\<close>, and \<open>splitter md text\<close> is the list of
  \<open>node.get_content()\<close> over
  \<open>self.splitter.get_nodes_from_documents([Document(text, md)])\<close>. The chunker has no
  exception handling of its own; the model is about the calls in which both libraries
  return.
\<close>

record chunker =
  chunk_size :: int
  overlap :: int
  encode :: "string \<Rightarrow> nat list"
  splitter :: "metadata \<Rightarrow> string \<Rightarrow> string list"

definition count_tokens :: "chunker \<Rightarrow> string \<Rightarrow> int" where
  "count_tokens c text = int (length (encode c text))"

definition or_empty :: "metadata option \<Rightarrow> metadata" where
  \<comment> \<open>\<open>metadata or {}\<close>\<close>
  "or_empty m = (case m of None \<Rightarrow> Map.empty | Some d \<Rightarrow> d)"

definition chunk_text :: "chunker \<Rightarrow> string \<Rightarrow> metadata option \<Rightarrow> chunk list" where
  "chunk_text c text md =
     (if strip text = [] then []
      else
        let m = or_empty md;
            nodes = splitter c m text
        in map (\<lambda>(i, node).
                 \<lparr>content = node,
                  metadata = m(''chunk_index'' \<mapsto> PyInt (int i),
                               ''chunk_count'' \<mapsto> PyInt (int (length nodes))),
                  tokens = count_tokens c node\<rparr>)
               (enumerate 0 nodes))"

definition is_fence :: "string \<Rightarrow> bool" where
  \<comment> \<open>\<open>code_fence_pattern.match(line)\<close> for the pattern \<open>^```.*$\<close> on a line without newline\<close>
  "is_fence line = startswith line ''```''"

fun split_loop ::
  "string list \<Rightarrow> (string \<times> bool) list \<Rightarrow> string list \<Rightarrow> bool \<Rightarrow> (string \<times> bool) list" where
  \<comment> \<open>the \<open>while i < len(lines)\<close> loop, on the lines from index \<open>i\<close> on, and the code after it\<close>
  "split_loop [] parts current_text in_code_block =
     (if current_text \<noteq> []
      then parts @ [(py_join [newline] current_text, in_code_block)]
      else parts)"
| "split_loop (line # rest) parts current_text in_code_block =
     (if is_fence line then
        (if in_code_block then
           split_loop rest (parts @ [(py_join [newline] (current_text @ [line]), True)]) [] False
         else
           split_loop rest
             (if current_text \<noteq> []
              then parts @ [(py_join [newline] current_text, False)] else parts)
             [line] True)
      else split_loop rest parts (current_text @ [line]) in_code_block)"

definition split_preserving_code_blocks :: "string \<Rightarrow> (string \<times> bool) list" where
  "split_preserving_code_blocks markdown = split_loop (py_split newline markdown) [] [] False"

fun chunk_parts ::
  "chunker \<Rightarrow> metadata option \<Rightarrow> (string \<times> bool) list \<Rightarrow> chunk list \<Rightarrow> chunk list" where
  \<comment> \<open>the \<open>for part_text, is_code in parts\<close> loop of \<open>chunk_markdown\<close>\<close>
  "chunk_parts c md [] all_chunks = all_chunks"
| "chunk_parts c md ((part_text, is_code) # parts) all_chunks =
     (if is_code then
        (let n = count_tokens c part_text in
         if n \<le> chunk_size c then
           chunk_parts c md parts
             (all_chunks @
              [\<lparr>content = part_text,
                metadata = (or_empty md)(''is_code_block'' \<mapsto> PyBool True),
                tokens = n\<rparr>])
         else chunk_parts c md parts (all_chunks @ chunk_text c part_text md))
      else chunk_parts c md parts (all_chunks @ chunk_text c part_text md))"

definition chunk_markdown ::
  "chunker \<Rightarrow> string \<Rightarrow> metadata option \<Rightarrow> bool \<Rightarrow> chunk list" where
  "chunk_markdown c markdown md preserve_code_blocks =
     (if preserve_code_blocks
      then chunk_parts c md (split_preserving_code_blocks markdown) []
      else chunk_text c markdown md)"

section \<open>The scraper base class (src/scrapers/base.py)\<close>

text \<open>
  What \<open>BaseScraper\<close> calls outside the repository's own logic is a parameter, the
  \<open>world\<close>: \<open>urllib.parse\<close>, the page fetch and the HTML parser. Each call either
  raises an exception (\<open>Inl\<close>) or returns (\<open>Inr\<close>). \<open>find_all_href soup\<close> is the list
  of \<open>a_tag["href"]\<close> over \<open>soup.find_all("a", href=True)\<close>.

  An exception is either an instance of Python's \<open>Exception\<close>, which an
  \<open>except Exception\<close> clause catches, or an instance of \<open>BaseException\<close> only
  (\<open>asyncio.CancelledError\<close>, \<open>KeyboardInterrupt\<close>, \<open>SystemExit\<close>), which it lets through.
\<close>

datatype exn = Exception string | BaseException string

record parse_result =
  scheme :: string
  netloc :: string

record 'soup world =
  urlparse :: "string \<Rightarrow> exn + parse_result"
  urljoin :: "string \<Rightarrow> string \<Rightarrow> exn + string"
  fetch_url :: "string \<Rightarrow> exn + string"
  BeautifulSoup :: "string \<Rightarrow> exn + 'soup"
  select_one :: "'soup \<Rightarrow> string \<Rightarrow> exn + 'soup option"
  find_all_href :: "'soup \<Rightarrow> exn + string list"

record scraper =
  name :: string
  base_url :: string
  start_urls :: "string list"
  skip_patterns :: "string list"
  visited_urls :: "string set"

definition common_skips :: "string list" where
  "common_skips = [''#'', ''javascript:'', ''mailto:'', ''.pdf'', ''.zip'', ''.png'', ''.jpg'',
                   ''.jpeg'', ''.gif'', ''.svg'']"

definition should_skip :: "scraper \<Rightarrow> string \<Rightarrow> bool" where
  "should_skip s url =
     (if url \<in> visited_urls s then True
      else if \<not> startswith url (base_url s) then True
      else if list_ex (\<lambda>pattern. contains pattern url) (skip_patterns s) then True
      else if list_ex (\<lambda>skip. contains skip (lower url)) common_skips then True
      else False)"

definition or_base :: "scraper \<Rightarrow> string option \<Rightarrow> string" where
  \<comment> \<open>\<open>base or self.base_url\<close>\<close>
  "or_base s base = (case base of None \<Rightarrow> base_url s | Some b \<Rightarrow> if b = [] then base_url s else b)"

definition normalize_url :: "'soup world \<Rightarrow> scraper \<Rightarrow> string \<Rightarrow> string option \<Rightarrow> exn + string" where
  "normalize_url w s url base0 =
     (let base = or_base s base0 in
      if startswith url ''/'' then
        (case urlparse w base of
           Inl e \<Rightarrow> Inl e
         | Inr parsed_base \<Rightarrow> Inr (scheme parsed_base @ ''://'' @ netloc parsed_base @ url))
      else if \<not> startswith url ''http'' then urljoin w base url
      else Inr (rstrip (\<lambda>c. c = CHR ''/'') (py_split (CHR ''#'') url ! 0)))"

fun collect_links ::
  "'soup world \<Rightarrow> scraper \<Rightarrow> string \<Rightarrow> string list \<Rightarrow> string list \<Rightarrow> exn + string list" where
  "collect_links w s url [] links = Inr links"
| "collect_links w s url (href # hrefs) links =
     (case normalize_url w s href (Some url) of
        Inl e \<Rightarrow> Inl e
      | Inr absolute_url \<Rightarrow>
          if \<not> should_skip s absolute_url
          then collect_links w s url hrefs (links @ [absolute_url])
          else collect_links w s url hrefs links)"

fun unique_links :: "string list \<Rightarrow> string set \<Rightarrow> string list \<Rightarrow> string list" where
  "unique_links [] seen unique = unique"
| "unique_links (link # links) seen unique =
     (if link \<notin> seen then unique_links links (insert link seen) (unique @ [link])
      else unique_links links seen unique)"

definition truthy :: "string option \<Rightarrow> bool" where
  "truthy sel = (case sel of None \<Rightarrow> False | Some x \<Rightarrow> x \<noteq> [])"

text \<open>
  \<open>extract_links_from_page\<close>: the body of the \<open>try\<close> is \<open>extract_links_try\<close>; the
  \<open>except Exception\<close> clause turns an instance of \<open>Exception\<close> into the empty list,
  and any other exception leaves the function.
\<close>

definition extract_links_try ::
  "'soup world \<Rightarrow> scraper \<Rightarrow> string \<Rightarrow> string option \<Rightarrow> exn + string list" where
  "extract_links_try w s url selector =
     (case fetch_url w url of
        Inl e \<Rightarrow> Inl e
      | Inr html \<Rightarrow>
     (case BeautifulSoup w html of
        Inl e \<Rightarrow> Inl e
      | Inr soup \<Rightarrow>
     (case (if truthy selector then select_one w soup (the selector) else Inr (Some soup)) of
        Inl e \<Rightarrow> Inl e
      | Inr None \<Rightarrow> Inr []
      | Inr (Some container) \<Rightarrow>
     (case find_all_href w container of
        Inl e \<Rightarrow> Inl e
      | Inr hrefs \<Rightarrow>
     (case collect_links w s url hrefs [] of
        Inl e \<Rightarrow> Inl e
      | Inr links \<Rightarrow> Inr (unique_links links {} []))))))"

definition extract_links_from_page ::
  "'soup world \<Rightarrow> scraper \<Rightarrow> string \<Rightarrow> string option \<Rightarrow> exn + string list" where
  "extract_links_from_page w s url selector =
     (case extract_links_try w s url selector of
        Inl (Exception e) \<Rightarrow> Inr []
      | Inl (BaseException e) \<Rightarrow> Inl (BaseException e)
      | Inr links \<Rightarrow> Inr links)"

text \<open>
  \<open>crawl_recursively\<close>: the \<open>while to_visit\<close> loop on the queue \<open>to_visit\<close> and the set
  \<open>all_urls\<close>. The third component, \<open>crawled\<close>, records the pages in the order in which
  the loop logs \<open>Crawling url (depth d)\<close> and extracts their links. The loop has no
  handler: an exception that leaves \<open>extract_links_from_page\<close> leaves the traversal
  (\<open>Inl\<close>). Otherwise the function returns the set \<open>all_urls\<close> (Python's
  \<open>list(all_urls)\<close> has no specified order) together with that record.
\<close>

function crawl_loop ::
  "(string \<Rightarrow> exn + string list) \<Rightarrow> int \<Rightarrow> (string \<times> int) list \<Rightarrow> string set
     \<Rightarrow> (string \<times> int) list \<Rightarrow> exn + string set \<times> (string \<times> int) list" where
  "crawl_loop extract max_depth [] all_urls crawled = Inr (all_urls, crawled)"
| "crawl_loop extract max_depth ((url, depth) # to_visit) all_urls crawled =
     (if url \<in> all_urls \<or> depth > max_depth
      then crawl_loop extract max_depth to_visit all_urls crawled
      else
        (case extract url of
           Inl e \<Rightarrow> Inl e
         | Inr links \<Rightarrow>
             crawl_loop extract max_depth
               (to_visit @ map (\<lambda>link. (link, depth + 1))
                               (filter (\<lambda>link. link \<notin> insert url all_urls) links))
               (insert url all_urls)
               (crawled @ [(url, depth)])))"
  by pat_completeness auto

definition crawl_recursively ::
  "'soup world \<Rightarrow> scraper \<Rightarrow> string \<Rightarrow> int \<Rightarrow> string option
     \<Rightarrow> exn + string set \<times> (string \<times> int) list" where
  "crawl_recursively w s start_url max_depth link_selector =
     crawl_loop (\<lambda>url. extract_links_from_page w s url link_selector) max_depth [(start_url, 0)] {} []"

section \<open>Notions used in the statements\<close>

subsection \<open>Lines and code blocks\<close>

text \<open>
  The lines of a part, and the three shapes a part can have: a closed code block (an
  opening fence, lines without fence, a closing fence), an open code block (an opening
  fence and no other fence), and prose (no fence line).
\<close>

definition lines_of :: "string \<Rightarrow> string list" where
  "lines_of t = py_split newline t"

definition closed_block :: "string list \<Rightarrow> bool" where
  "closed_block ls = (2 \<le> length ls \<and> is_fence (hd ls) \<and> is_fence (last ls)
      \<and> (\<forall>l\<in>set (butlast (tl ls)). \<not> is_fence l))"

definition open_block :: "string list \<Rightarrow> bool" where
  "open_block ls = (ls \<noteq> [] \<and> is_fence (hd ls) \<and> (\<forall>l\<in>set (tl ls). \<not> is_fence l))"

definition prose_block :: "string list \<Rightarrow> bool" where
  "prose_block ls = (ls \<noteq> [] \<and> (\<forall>l\<in>set ls. \<not> is_fence l))"

definition part_lines :: "string \<times> bool \<Rightarrow> string list \<times> bool" where
  "part_lines p = (lines_of (fst p), snd p)"

text \<open>
  \<open>group_ok final\<close> is the shape of one part; only the final part may be an open code
  block.
\<close>

definition group_ok :: "bool \<Rightarrow> string list \<times> bool \<Rightarrow> bool" where
  "group_ok final g = (if snd g then closed_block (fst g) \<or> (final \<and> open_block (fst g))
                       else prose_block (fst g))"

fun groups_ok :: "(string list \<times> bool) list \<Rightarrow> bool" where
  "groups_ok [] = True"
| "groups_ok [g] = group_ok True g"
| "groups_ok (g # h # gs) = (group_ok False g \<and> groups_ok (h # gs))"

text \<open>
  \<open>group_loop\<close> is the loop of \<open>split_loop\<close> run on groups of lines instead of joined texts;
  it is used in the proofs only (\<open>split_loop_groups\<close>).
\<close>

fun group_loop ::
  "string list \<Rightarrow> (string list \<times> bool) list \<Rightarrow> string list \<Rightarrow> bool \<Rightarrow> (string list \<times> bool) list" where
  "group_loop [] groups cur ic = (if cur \<noteq> [] then groups @ [(cur, ic)] else groups)"
| "group_loop (line # rest) groups cur ic =
     (if is_fence line then
        (if ic then group_loop rest (groups @ [(cur @ [line], True)]) [] False
         else group_loop rest (if cur \<noteq> [] then groups @ [(cur, False)] else groups) [line] True)
      else group_loop rest groups (cur @ [line]) ic)"

definition join_group :: "string list \<times> bool \<Rightarrow> string \<times> bool" where
  "join_group g = (py_join [newline] (fst g), snd g)"


subsection \<open>The link graph\<close>

text \<open>
  \<open>links_of extract url\<close> are the links that the extraction returns for a page, none
  where it raises, and \<open>page_links\<close> those of \<open>extract_links_from_page\<close>.
  \<open>steps links k u\<close> are the URLs at the end of a chain of exactly \<open>k\<close> links from \<open>u\<close>,
  and \<open>within links max_depth u\<close> those within \<open>max_depth\<close> links. \<open>reach\<close> and
  \<open>frontier\<close> bound what the queue can still add; they give the termination measure.
\<close>

definition links_of :: "(string \<Rightarrow> exn + string list) \<Rightarrow> string \<Rightarrow> string list" where
  "links_of extract url = (case extract url of Inl e \<Rightarrow> [] | Inr links \<Rightarrow> links)"

definition page_links :: "'soup world \<Rightarrow> scraper \<Rightarrow> string option \<Rightarrow> string \<Rightarrow> string list" where
  "page_links w s selector = links_of (\<lambda>url. extract_links_from_page w s url selector)"

fun steps :: "(string \<Rightarrow> string list) \<Rightarrow> nat \<Rightarrow> string \<Rightarrow> string set" where
  "steps links 0 u = {u}"
| "steps links (Suc k) u = (\<Union>v\<in>steps links k u. set (links v))"

definition within :: "(string \<Rightarrow> string list) \<Rightarrow> int \<Rightarrow> string \<Rightarrow> string set" where
  "within links max_depth seed = {u. \<exists>k. int k \<le> max_depth \<and> u \<in> steps links k seed}"

fun reach :: "(string \<Rightarrow> string list) \<Rightarrow> nat \<Rightarrow> string \<Rightarrow> string set" where
  "reach links 0 u = {u}"
| "reach links (Suc n) u = insert u (\<Union>v\<in>set (links u). reach links n v)"

definition frontier :: "(string \<Rightarrow> string list) \<Rightarrow> int \<Rightarrow> (string \<times> int) list \<Rightarrow> string set" where
  "frontier links max_depth to_visit =
     (\<Union>(u, d)\<in>set to_visit. if d \<le> max_depth then reach links (nat (max_depth - d)) u else {})"

subsection \<open>Invariants of the traversal\<close>

definition inv_entries :: "(string \<Rightarrow> string list) \<Rightarrow> int \<Rightarrow> string \<Rightarrow> (string \<times> int) list \<Rightarrow> bool" where
  "inv_entries links D seed q =
     (\<forall>e\<in>set q. 0 \<le> snd e \<and> snd e \<le> D + 1 \<and> fst e \<in> steps links (nat (snd e)) seed)"

definition inv_order :: "(string \<times> int) list \<Rightarrow> bool" where
  "inv_order q = (sorted (map snd q) \<and> (\<forall>e\<in>set q. snd e \<le> snd (hd q) + 1))"

definition inv_seed :: "string \<Rightarrow> (string \<times> int) list \<Rightarrow> string set \<Rightarrow> bool" where
  "inv_seed seed q V = (seed \<in> V \<or> (seed, 0) \<in> set q)"

definition inv_closed ::
  "(string \<Rightarrow> string list) \<Rightarrow> int \<Rightarrow> string \<Rightarrow> (string \<times> int) list \<Rightarrow> string set \<Rightarrow> bool" where
  "inv_closed links D seed q V =
     (\<forall>v\<in>V. \<forall>k. int k < D \<longrightarrow> v \<in> steps links k seed \<longrightarrow>
        (\<forall>w\<in>set (links v). w \<in> V \<or> (\<exists>d. d \<le> int k + 1 \<and> (w, d) \<in> set q)))"

definition inv_layers ::
  "(string \<Rightarrow> string list) \<Rightarrow> string \<Rightarrow> (string \<times> int) list \<Rightarrow> string set \<Rightarrow> bool" where
  "inv_layers links seed q V =
     (q \<noteq> [] \<longrightarrow> (\<forall>k. int k < snd (hd q) \<longrightarrow> steps links k seed \<subseteq> V))"

definition bfs_inv ::
  "(string \<Rightarrow> string list) \<Rightarrow> int \<Rightarrow> string \<Rightarrow> (string \<times> int) list \<Rightarrow> string set \<Rightarrow> bool" where
  "bfs_inv links D seed q V =
     (0 \<le> D \<and> V \<subseteq> within links D seed \<and> inv_entries links D seed q \<and> inv_order q
      \<and> inv_seed seed q V \<and> inv_closed links D seed q V \<and> inv_layers links seed q V)"

definition log_inv ::
  "(string \<Rightarrow> string list) \<Rightarrow> string \<Rightarrow> (string \<times> int) list \<Rightarrow> string set \<Rightarrow> (string \<times> int) list \<Rightarrow> bool" where
  "log_inv links seed q V crawled =
     (fst ` set crawled = V \<and> distinct (map fst crawled) \<and> sorted (map snd crawled)
      \<and> (\<forall>e\<in>set crawled. 0 \<le> snd e \<and> fst e \<in> steps links (nat (snd e)) seed
             \<and> (\<forall>k. int k < snd e \<longrightarrow> fst e \<notin> steps links k seed))
      \<and> (q \<noteq> [] \<longrightarrow> (\<forall>e\<in>set crawled. snd e \<le> snd (hd q))))"

definition bfs_log :: "(string \<Rightarrow> string list) \<Rightarrow> string \<Rightarrow> string set \<Rightarrow> (string \<times> int) list \<Rightarrow> bool" where
  "bfs_log links seed V crawled = log_inv links seed [] V crawled"

definition crawl_inv ::
  "(string \<Rightarrow> string list) \<Rightarrow> int \<Rightarrow> string \<Rightarrow> (string \<times> int) list \<Rightarrow> string set
     \<Rightarrow> (string \<times> int) list \<Rightarrow> bool" where
  "crawl_inv links D seed q V cr = (bfs_inv links D seed q V \<and> log_inv links seed q V cr)"

subsection \<open>Readings of the specification\<close>

text \<open>
  The skip predicate with its last clause as the specification words it: an anchor, a
  \<open>javascript:\<close> or \<open>mailto:\<close> marker, or a URL that ends in one of the binary, image
  or archive extensions, compared case-insensitively.
\<close>

definition common_extensions :: "string list" where
  "common_extensions = [''.pdf'', ''.zip'', ''.png'', ''.jpg'', ''.jpeg'', ''.gif'', ''.svg'']"

definition should_skip_spec :: "scraper \<Rightarrow> string \<Rightarrow> bool" where
  "should_skip_spec s url =
     (url \<in> visited_urls s
      \<or> \<not> startswith url (base_url s)
      \<or> list_ex (\<lambda>pattern. contains pattern url) (skip_patterns s)
      \<or> contains ''#'' (lower url) \<or> contains ''javascript:'' (lower url)
      \<or> contains ''mailto:'' (lower url)
      \<or> list_ex (\<lambda>ext. suffix ext (lower url)) common_extensions)"

text \<open>
  Normalisation of an absolute URL as the specification words it: the fragment is
  stripped and a single trailing slash is removed.
\<close>

definition strip_fragment :: "string \<Rightarrow> string" where
  "strip_fragment url = takeWhile (\<lambda>c. c \<noteq> CHR ''#'') url"

definition strip_single_slash :: "string \<Rightarrow> string" where
  "strip_single_slash url = (if url \<noteq> [] \<and> last url = CHR ''/'' then butlast url else url)"

subsection \<open>Instances for the examples\<close>

text \<open>
  A chunker with one token per character and a splitter that returns a text that fits as
  one node, and a document with a fenced block between two lines of prose.
\<close>

definition example_chunker :: chunker where
  "example_chunker =
     \<lparr>chunk_size = 1000, overlap = 200, encode = map of_char, splitter = (\<lambda>md text. [text])\<rparr>"

definition example_markdown :: string where
  "example_markdown = py_join [newline] [''intro'', ''```'', ''code'', ''```'', ''outro'']"

text \<open>
  A site of four pages: \<open>a\<close> links to \<open>b\<close>, \<open>c\<close> and a page of another host, \<open>b\<close> links
  to \<open>d\<close>; every other page fails to load. \<open>example_urlparse\<close> gives scheme and netloc
  of a URL of the form \<open>scheme://netloc/path\<close>; \<open>example_urljoin\<close> resolves a plain
  relative name against the directory of the base.
\<close>

definition example_urlparse :: "string \<Rightarrow> exn + parse_result" where
  "example_urlparse url =
     (let s = takeWhile (\<lambda>c. c \<noteq> CHR '':'') url;
          rest = drop (Suc (length s)) url
      in Inr \<lparr>scheme = lower s,
              netloc = (if startswith rest ''//''
                        then takeWhile (\<lambda>c. c \<notin> {CHR ''/'', CHR ''?'', CHR ''#''}) (drop 2 rest)
                        else [])\<rparr>)"

definition example_urljoin :: "string \<Rightarrow> string \<Rightarrow> exn + string" where
  "example_urljoin base url = Inr (rev (dropWhile (\<lambda>c. c \<noteq> CHR ''/'') (rev base)) @ url)"

definition example_hrefs :: "string \<Rightarrow> string list" where
  "example_hrefs page =
     (if page = ''https://x.dev/a'' then [''https://x.dev/b'', ''/c'', ''https://other.org/x'']
      else if page = ''https://x.dev/b'' then [''https://x.dev/d'']
      else [])"

definition example_world :: "string list world" where
  "example_world =
     \<lparr>urlparse = example_urlparse,
      urljoin = example_urljoin,
      fetch_url = (\<lambda>url. if url \<in> {''https://x.dev/a'', ''https://x.dev/b'', ''https://x.dev/c'',
                                     ''https://x.dev/d''}
                         then Inr url else Inl (Exception ''fetch failed'')),
      BeautifulSoup = (\<lambda>html. Inr (example_hrefs html)),
      select_one = (\<lambda>soup selector. Inr (Some soup)),
      find_all_href = (\<lambda>soup. Inr soup)\<rparr>"

text \<open>The same site when the fetch is cancelled.\<close>

definition cancelled_world :: "string list world" where
  "cancelled_world =
     example_world\<lparr>fetch_url := (\<lambda>url. Inl (BaseException ''CancelledError''))\<rparr>"

definition example_scraper :: scraper where
  "example_scraper =
     \<lparr>name = ''example'', base_url = ''https://x.dev'', start_urls = [''https://x.dev/a''],
      skip_patterns = [''/blog/''], visited_urls = {}\<rparr>"

section \<open>Termination of the traversal\<close>

text \<open>
  Each iteration either drops the head of the queue, or visits a URL that the frontier
  still held and that was not yet in \<open>all_urls\<close>; the frontier is finite and never grows.
\<close>

lemma finite_reach: "finite (reach links n u)"
  by (induction n arbitrary: u) auto

lemma reach_self: "u \<in> reach links n u"
  by (cases n) auto

lemma finite_frontier: "finite (frontier links max_depth to_visit)"
  by (auto simp: frontier_def finite_reach)

lemma frontier_Cons:
  "frontier links D ((u, d) # q) =
     (if d \<le> D then reach links (nat (D - d)) u else {}) \<union> frontier links D q"
  by (simp add: frontier_def)

lemma frontier_append:
  "frontier links D (q @ r) = frontier links D q \<union> frontier links D r"
  by (auto simp: frontier_def)

lemma frontier_children:
  assumes "d \<le> D"
  shows "frontier links D (map (\<lambda>link. (link, d + 1)) (filter P (links u))) \<subseteq> reach links (nat (D - d)) u"
proof (cases "d + 1 \<le> D")
  case True
  then have "nat (D - d) = Suc (nat (D - (d + 1)))" by simp
  then show ?thesis by (auto simp: frontier_def)
next
  case False
  then show ?thesis by (auto simp: frontier_def)
qed

termination crawl_loop
proof (relation "inv_image (less_than <*lex*> less_than)
         (\<lambda>(extract, D, q, all_urls, crawled).
            (card (frontier (links_of extract) D q - all_urls), length q))")
  show "wf (inv_image (less_than <*lex*> less_than)
         (\<lambda>(extract, D, q, all_urls, crawled).
            (card (frontier (links_of extract) D q - all_urls), length q)))"
    by (intro wf_inv_image wf_lex_prod wf_less_than)
next
  fix extr :: "string \<Rightarrow> exn + string list" and max_depth :: int and url :: string
    and depth :: int and to_visit :: "(string \<times> int) list" and all_urls :: "string set"
    and crawled :: "(string \<times> int) list"
  let ?L = "links_of extr"
  have "frontier ?L max_depth to_visit - all_urls
          \<subseteq> frontier ?L max_depth ((url, depth) # to_visit) - all_urls"
    by (auto simp: frontier_Cons)
  then have "card (frontier ?L max_depth to_visit - all_urls)
          \<le> card (frontier ?L max_depth ((url, depth) # to_visit) - all_urls)"
    by (intro card_mono finite_Diff finite_frontier)
  then show "((extr, max_depth, to_visit, all_urls, crawled),
              (extr, max_depth, (url, depth) # to_visit, all_urls, crawled))
        \<in> inv_image (less_than <*lex*> less_than)
         (\<lambda>(extract, D, q, all_urls, crawled).
            (card (frontier (links_of extract) D q - all_urls), length q))"
    by auto
next
  fix extr :: "string \<Rightarrow> exn + string list" and max_depth :: int and url :: string
    and depth :: int and to_visit :: "(string \<times> int) list" and all_urls :: "string set"
    and crawled :: "(string \<times> int) list" and links :: "string list"
  assume a: "\<not> (url \<in> all_urls \<or> max_depth < depth)" and e: "extr url = Inr links"
  let ?L = "links_of extr"
  let ?new = "map (\<lambda>link. (link, depth + 1)) (filter (\<lambda>link. link \<notin> insert url all_urls) links)"
  have l: "?L url = links" using e by (simp add: links_of_def)
  have sub: "frontier ?L max_depth (to_visit @ ?new) \<subseteq> frontier ?L max_depth ((url, depth) # to_visit)"
    using a frontier_children [of depth max_depth ?L "\<lambda>link. link \<notin> insert url all_urls" url]
    by (auto simp: frontier_Cons frontier_append l)
  have mem: "url \<in> frontier ?L max_depth ((url, depth) # to_visit) - all_urls"
    using a by (simp add: frontier_Cons reach_self)
  have "frontier ?L max_depth (to_visit @ ?new) - insert url all_urls
          \<subset> frontier ?L max_depth ((url, depth) # to_visit) - all_urls"
    using sub mem by blast
  then have "card (frontier ?L max_depth (to_visit @ ?new) - insert url all_urls)
          < card (frontier ?L max_depth ((url, depth) # to_visit) - all_urls)"
    by (intro psubset_card_mono finite_Diff finite_frontier)
  then show "((extr, max_depth, to_visit @ ?new, insert url all_urls, crawled @ [(url, depth)]),
              (extr, max_depth, (url, depth) # to_visit, all_urls, crawled))
        \<in> inv_image (less_than <*lex*> less_than)
         (\<lambda>(extract, D, q, all_urls, crawled).
            (card (frontier (links_of extract) D q - all_urls), length q))"
    by auto
qed

section \<open>Strings: splitting, joining, stripping\<close>

lemma py_split_ne: "py_split sep s \<noteq> []"
  by (induction s) (auto split: list.splits)

lemma py_join_split: "py_join [sep] (py_split sep s) = s"
proof (induction s)
  case Nil
  then show ?case by simp
next
  case (Cons c cs)
  obtain l ls where e: "py_split sep cs = l # ls"
    using py_split_ne [of sep cs] by (cases "py_split sep cs") auto
  show ?case using Cons e by (cases ls) auto
qed

lemma py_split_no_sep: "l \<in> set (py_split sep s) \<Longrightarrow> sep \<notin> set l"
proof (induction s arbitrary: l)
  case Nil
  then show ?case by simp
next
  case (Cons c cs)
  obtain k ks where e: "py_split sep cs = k # ks"
    using py_split_ne [of sep cs] by (cases "py_split sep cs") auto
  show ?case using Cons e by (auto split: if_splits)
qed

lemma py_split_line: "sep \<notin> set l \<Longrightarrow> py_split sep (l @ sep # s) = l # py_split sep s"
  by (induction l) auto

lemma py_split_single: "sep \<notin> set l \<Longrightarrow> py_split sep l = [l]"
  by (induction l) auto

lemma py_split_join:
  "ls \<noteq> [] \<Longrightarrow> \<forall>l\<in>set ls. sep \<notin> set l \<Longrightarrow> py_split sep (py_join [sep] ls) = ls"
proof (induction ls)
  case Nil
  then show ?case by simp
next
  case (Cons x xs)
  show ?case
  proof (cases xs)
    case Nil
    then show ?thesis using Cons.prems by (simp add: py_split_single)
  next
    case (Cons y ys)
    then show ?thesis using Cons.IH Cons.prems by (simp add: py_split_line)
  qed
qed

lemma py_join_append:
  "xs \<noteq> [] \<Longrightarrow> ys \<noteq> [] \<Longrightarrow> py_join sep (xs @ ys) = py_join sep xs @ sep @ py_join sep ys"
proof (induction xs rule: py_join.induct[of _ sep])
  case 1 then show ?case by simp
next
  case (2 x) then show ?case by (cases ys) auto
next
  case (3 x y ys) then show ?case by simp
qed

lemma py_join_concat:
  "\<forall>g\<in>set gs. g \<noteq> [] \<Longrightarrow> py_join sep (map (py_join sep) gs) = py_join sep (concat gs)"
proof (induction gs)
  case Nil
  then show ?case by simp
next
  case (Cons g gs)
  show ?case
  proof (cases gs)
    case Nil
    then show ?thesis by simp
  next
    case (Cons h hs)
    have ne: "concat gs \<noteq> []" using Cons Cons.prems \<open>\<forall>g\<in>set (g # gs). g \<noteq> []\<close> by auto
    have "py_join sep (map (py_join sep) (g # gs)) = py_join sep g @ sep @ py_join sep (map (py_join sep) gs)"
      using Cons by simp
    also have "\<dots> = py_join sep g @ sep @ py_join sep (concat gs)"
      using Cons.IH \<open>\<forall>g\<in>set (g # gs). g \<noteq> []\<close> by simp
    also have "\<dots> = py_join sep (g @ concat gs)"
      using ne \<open>\<forall>g\<in>set (g # gs). g \<noteq> []\<close> by (simp add: py_join_append)
    finally show ?thesis by simp
  qed
qed

lemma py_split_chars: "l \<in> set (py_split sep s) \<Longrightarrow> set l \<subseteq> set s"
proof (induction s arbitrary: l)
  case Nil
  then show ?case by simp
next
  case (Cons c cs)
  obtain k ks where e: "py_split sep cs = k # ks"
    using py_split_ne [of sep cs] by (cases "py_split sep cs") auto
  show ?case using Cons e by (fastforce split: if_splits)
qed

lemma py_split_hd: "py_split sep s ! 0 = takeWhile (\<lambda>c. c \<noteq> sep) s"
proof (induction s)
  case Nil
  then show ?case by simp
next
  case (Cons c cs)
  obtain k ks where e: "py_split sep cs = k # ks"
    using py_split_ne [of sep cs] by (cases "py_split sep cs") auto
  show ?case using Cons e by auto
qed

lemma contains_iff: "contains p s \<longleftrightarrow> (\<exists>a b. s = a @ p @ b)"
proof (induction s)
  case Nil
  then show ?case by auto
next
  case (Cons c cs)
  show ?case
  proof
    assume "contains p (c # cs)"
    then consider "prefix p (c # cs)" | "contains p cs" by auto
    then show "\<exists>a b. c # cs = a @ p @ b"
    proof cases
      case 1
      then obtain b where "c # cs = p @ b" by (auto simp: prefix_def)
      then have "c # cs = [] @ p @ b" by simp
      then show ?thesis by blast
    next
      case 2
      then obtain a b where "cs = a @ p @ b" using Cons.IH by blast
      then have "c # cs = (c # a) @ p @ b" by simp
      then show ?thesis by blast
    qed
  next
    assume "\<exists>a b. c # cs = a @ p @ b"
    then obtain a b where e: "c # cs = a @ p @ b" by blast
    show "contains p (c # cs)"
    proof (cases a)
      case Nil
      then have "prefix p (c # cs)" using e by (simp add: prefix_def)
      then show ?thesis by simp
    next
      case (Cons x xs)
      then have "cs = xs @ p @ b" using e by simp
      then show ?thesis using Cons.IH by auto
    qed
  qed
qed

lemma rstrip_append_keep:
  "x \<noteq> [] \<Longrightarrow> \<not> p (last x) \<Longrightarrow> rstrip p (x @ y) = x @ rstrip p y"
  by (cases x rule: rev_cases) (auto simp: rstrip_def dropWhile_append)

lemma rstrip_no_suffix: "rstrip p s = r \<Longrightarrow> r = [] \<or> \<not> p (last r)"
  unfolding rstrip_def
  by (metis dropWhile_eq_Nil_conv hd_dropWhile last_rev rev_is_Nil_conv)

lemma rstrip_id: "r = [] \<or> \<not> p (last r) \<Longrightarrow> rstrip p r = r"
  unfolding rstrip_def by (cases r rule: rev_cases) auto

lemma rstrip_idem: "rstrip p (rstrip p s) = rstrip p s"
  using rstrip_id [OF rstrip_no_suffix [OF refl]] .

lemma rstrip_subset: "set (rstrip p s) \<subseteq> set s"
  unfolding rstrip_def using set_dropWhileD by fastforce

lemma takeWhile_no_hash: "CHR ''#'' \<notin> set (takeWhile (\<lambda>c. c \<noteq> CHR ''#'') url)"
  using set_takeWhileD by fastforce

lemma takeWhile_id: "x \<notin> set r \<Longrightarrow> takeWhile (\<lambda>c. c \<noteq> x) r = r"
  by (induction r) auto

lemma strip_whitespace: "\<forall>ch\<in>set text. isspace ch \<Longrightarrow> strip text = []"
  by (auto simp: strip_def rstrip_def dest: set_dropWhileD)

section \<open>The code-block splitter\<close>

lemma split_loop_groups:
  "split_loop ls (map join_group gs) cur ic = map join_group (group_loop ls gs cur ic)"
proof (induction ls arbitrary: gs cur ic)
  case Nil
  then show ?case by (simp add: join_group_def)
next
  case (Cons line rest)
  have a: "map join_group gs @ [(py_join [newline] (cur @ [line]), True)]
            = map join_group (gs @ [(cur @ [line], True)])"
    by (simp add: join_group_def)
  have b: "map join_group gs @ [(py_join [newline] cur, False)]
            = map join_group (gs @ [(cur, False)])"
    by (simp add: join_group_def)
  show ?case
    by (simp only: split_loop.simps group_loop.simps a b Cons.IH if_distrib [of "map join_group"]
          split: if_splits) simp
qed

lemma group_loop_concat:
  "concat (map fst (group_loop ls gs cur ic)) = concat (map fst gs) @ cur @ ls"
  by (induction ls arbitrary: gs cur ic) simp_all

lemma groups_ok_snoc:
  "list_all (group_ok False) gs \<Longrightarrow> group_ok True g \<Longrightarrow> groups_ok (gs @ [g])"
  by (induction gs rule: groups_ok.induct) simp_all

lemma groups_ok_all:
  "list_all (group_ok False) gs \<Longrightarrow> groups_ok gs"
proof (induction gs rule: groups_ok.induct)
  case (2 g)
  then show ?case by (auto simp: group_ok_def split: if_splits)
qed simp_all

lemma closed_block_snoc:
  "open_block cur \<Longrightarrow> is_fence line \<Longrightarrow> closed_block (cur @ [line])"
  by (cases cur) (auto simp: closed_block_def open_block_def butlast_append)

lemma open_block_snoc:
  "open_block cur \<Longrightarrow> \<not> is_fence line \<Longrightarrow> open_block (cur @ [line])"
  by (cases cur) (auto simp: open_block_def)

lemma group_loop_ok:
  "list_all (group_ok False) gs \<Longrightarrow>
   (if ic then open_block cur else \<forall>l\<in>set cur. \<not> is_fence l) \<Longrightarrow>
   groups_ok (group_loop ls gs cur ic)"
proof (induction ls arbitrary: gs cur ic)
  case Nil
  show ?case
  proof (cases "cur = []")
    case True
    then show ?thesis using Nil.prems(1) by (simp add: groups_ok_all)
  next
    case False
    have "group_ok True (cur, ic)"
      using Nil.prems(2) False by (auto simp: group_ok_def prose_block_def)
    then show ?thesis using Nil.prems(1) False by (simp add: groups_ok_snoc)
  qed
next
  case (Cons line rest)
  show ?case
  proof (cases "is_fence line")
    case True
    show ?thesis
    proof (cases ic)
      case True
      have "group_ok False (cur @ [line], True)"
        using Cons.prems(2) True \<open>is_fence line\<close> by (simp add: group_ok_def closed_block_snoc)
      then have "list_all (group_ok False) (gs @ [(cur @ [line], True)])"
        using Cons.prems(1) by simp
      from Cons.IH [OF this, of False "[]"] show ?thesis
        using True \<open>is_fence line\<close> by simp
    next
      case False
      have "cur \<noteq> [] \<Longrightarrow> group_ok False (cur, False)"
        using Cons.prems(2) False by (simp add: group_ok_def prose_block_def)
      then have a: "list_all (group_ok False) (if cur \<noteq> [] then gs @ [(cur, False)] else gs)"
        using Cons.prems(1) by simp
      have b: "open_block [line]" using \<open>is_fence line\<close> by (simp add: open_block_def)
      from Cons.IH [OF a, of True "[line]"] b show ?thesis
        using False \<open>is_fence line\<close> by simp
    qed
  next
    case False
    have "if ic then open_block (cur @ [line]) else \<forall>l\<in>set (cur @ [line]). \<not> is_fence l"
      using Cons.prems(2) False by (auto simp: open_block_snoc)
    from Cons.IH [OF Cons.prems(1) this] show ?thesis using False by simp
  qed
qed

lemma groups_ok_ne: "groups_ok gs \<Longrightarrow> g \<in> set gs \<Longrightarrow> fst g \<noteq> []"
  by (induction gs rule: groups_ok.induct)
     (auto simp: group_ok_def closed_block_def open_block_def prose_block_def split: if_splits)

lemma split_preserving_groups:
  "split_preserving_code_blocks markdown = map join_group (group_loop (lines_of markdown) [] [] False)"
  using split_loop_groups [of "lines_of markdown" "[]" "[]" False]
  by (simp add: split_preserving_code_blocks_def lines_of_def)

lemma groups_of_markdown:
  fixes markdown
  defines "G \<equiv> group_loop (lines_of markdown) [] [] False"
  shows "concat (map fst G) = lines_of markdown"
    and "groups_ok G"
    and "g \<in> set G \<Longrightarrow> fst g \<noteq> []"
    and "g \<in> set G \<Longrightarrow> part_lines (join_group g) = g"
proof -
  show c: "concat (map fst G) = lines_of markdown"
    unfolding G_def by (simp add: group_loop_concat)
  show ok: "groups_ok G"
    unfolding G_def by (rule group_loop_ok) simp_all
  show ne: "fst g \<noteq> []" if "g \<in> set G" for g
    using groups_ok_ne [OF ok that] .
  show "part_lines (join_group g) = g" if "g \<in> set G" for g
  proof -
    have "set (fst g) \<subseteq> set (concat (map fst G))" using that by auto
    then have "\<forall>l\<in>set (fst g). newline \<notin> set l"
      unfolding c lines_of_def using py_split_no_sep by blast
    then show ?thesis
      using ne [OF that] by (simp add: part_lines_def join_group_def lines_of_def py_split_join)
  qed
qed

lemma parts_lines_groups:
  "map part_lines (split_preserving_code_blocks markdown) = group_loop (lines_of markdown) [] [] False"
  by (simp add: split_preserving_groups groups_of_markdown(4) map_idI)

lemma groups_ok_code_hd:
  "groups_ok gs \<Longrightarrow> (ls, True) \<in> set gs \<Longrightarrow> is_fence (hd ls)"
  by (induction gs rule: groups_ok.induct)
     (auto simp: group_ok_def closed_block_def open_block_def split: if_splits)

lemma fence_not_space: "is_fence l \<Longrightarrow> \<exists>ch\<in>set l. \<not> isspace ch"
  by (cases l) (auto simp: is_fence_def startswith_def isspace_def)

lemma split_loop_no_fence:
  "\<forall>l\<in>set ls. \<not> is_fence l \<Longrightarrow>
   split_loop ls parts cur ic =
     (if cur @ ls \<noteq> [] then parts @ [(py_join [newline] (cur @ ls), ic)] else parts)"
  by (induction ls arbitrary: cur) auto

lemma example_parts:
  "split_preserving_code_blocks example_markdown =
     [(''intro'', False), (py_join [newline] [''```'', ''code'', ''```''], True), (''outro'', False)]"
  by (simp add: example_markdown_def split_preserving_code_blocks_def newline_def is_fence_def startswith_def)

text \<open>
  Claim C10. For every markdown string, joining the texts of the parts returned by
  \<open>_split_preserving_code_blocks\<close> with a single newline gives the input back; the
  lines of the parts, in order, are the lines of the input, so every line lies in exactly
  one part; a part flagged as code begins with a fence line; and the fence lines toggle the
  state: a prose part has no fence line, a code part that is followed by another part is
  closed (at least two lines, the first and the last are fences, none between is), and
  only the last part may be a code block left open.
\<close>

theorem split_preserving_code_blocks_partition:
  "py_join [newline] (map fst (split_preserving_code_blocks markdown)) = markdown
   \<and> concat (map (\<lambda>p. lines_of (fst p)) (split_preserving_code_blocks markdown)) = lines_of markdown
   \<and> groups_ok (map part_lines (split_preserving_code_blocks markdown))
   \<and> (\<forall>p\<in>set (split_preserving_code_blocks markdown). snd p \<longrightarrow> is_fence (hd (lines_of (fst p))))"
proof -
  define G where "G = group_loop (lines_of markdown) [] [] False"
  have ps: "split_preserving_code_blocks markdown = map join_group G"
    unfolding G_def by (rule split_preserving_groups)
  have pl: "map part_lines (split_preserving_code_blocks markdown) = G"
    unfolding G_def by (rule parts_lines_groups)
  have ok: "groups_ok G" unfolding G_def by (rule groups_of_markdown(2))
  have ne: "\<forall>g\<in>set (map fst G). g \<noteq> []"
    unfolding G_def using groups_of_markdown(3) by auto
  have "map fst (map join_group G) = map (py_join [newline]) (map fst G)"
    by (simp add: join_group_def)
  then have "py_join [newline] (map fst (split_preserving_code_blocks markdown))
      = py_join [newline] (map (py_join [newline]) (map fst G))"
    by (simp only: ps)
  also have "\<dots> = py_join [newline] (concat (map fst G))"
    by (rule py_join_concat [OF ne])
  also have "\<dots> = markdown"
    unfolding G_def by (simp add: group_loop_concat lines_of_def py_join_split)
  finally have a: "py_join [newline] (map fst (split_preserving_code_blocks markdown)) = markdown" .
  have "map (\<lambda>p. lines_of (fst p)) (split_preserving_code_blocks markdown)
      = map fst (map part_lines (split_preserving_code_blocks markdown))"
    by (simp add: part_lines_def)
  then have b: "concat (map (\<lambda>p. lines_of (fst p)) (split_preserving_code_blocks markdown)) = lines_of markdown"
    unfolding pl G_def by (simp add: groups_of_markdown(1))
  have c: "groups_ok (map part_lines (split_preserving_code_blocks markdown))"
    using ok pl by simp
  have d: "is_fence (hd (lines_of (fst p)))"
    if "p \<in> set (split_preserving_code_blocks markdown)" "snd p" for p
  proof -
    have "part_lines p \<in> set G" using that(1) pl by (metis image_eqI set_map)
    then have "(lines_of (fst p), True) \<in> set G" using that(2) by (simp add: part_lines_def)
    then show ?thesis using groups_ok_code_hd [OF ok] by blast
  qed
  show ?thesis using a b c d by blast
qed

theorem split_preserving_code_blocks_partition_witness:
  "py_join [newline] (map fst (split_preserving_code_blocks example_markdown)) = example_markdown
   \<and> split_preserving_code_blocks example_markdown =
       [(''intro'', False), (py_join [newline] [''```'', ''code'', ''```''], True), (''outro'', False)]
   \<and> groups_ok (map part_lines (split_preserving_code_blocks example_markdown))
   \<and> is_fence (hd (lines_of (py_join [newline] [''```'', ''code'', ''```''])))"
  using split_preserving_code_blocks_partition [of example_markdown]
  by (simp add: example_parts)

section \<open>Chunking\<close>





text \<open>
  Claim C9. A text that is empty or has only whitespace characters gives no segment at
  all: \<open>chunk_text\<close> returns the empty list, and so does \<open>chunk_markdown\<close>, with or
  without \<open>preserve_code_blocks\<close>.
\<close>

theorem chunk_whitespace_empty:
  assumes "\<forall>ch\<in>set text. isspace ch"
  shows "chunk_text c text md = [] \<and> chunk_markdown c text md preserve_code_blocks = []"
proof -
  have t: "chunk_text c text md = []"
    using assms by (simp add: chunk_text_def strip_whitespace)
  have "\<not> is_fence l" if "l \<in> set (py_split newline text)" for l
    using fence_not_space [of l] py_split_chars [OF that] assms by blast
  then have "split_preserving_code_blocks text = [(text, False)]"
    using py_split_ne [of newline "text"]
    by (simp add: split_preserving_code_blocks_def split_loop_no_fence py_join_split)
  then show ?thesis using t by (simp add: chunk_markdown_def)
qed

theorem chunk_whitespace_empty_witness:
  "chunk_text example_chunker [] None = []
   \<and> chunk_markdown example_chunker [] None True = []
   \<and> chunk_text example_chunker [CHR '' '', newline, CHR '' ''] None = []
   \<and> chunk_markdown example_chunker [CHR '' '', newline, CHR '' ''] None True = []"
  using chunk_whitespace_empty [of "[]" example_chunker None True]
    chunk_whitespace_empty [of "[CHR '' '', newline, CHR '' '']" example_chunker None True]
  by (simp add: isspace_def newline_def)

text \<open>
  The segments of one call of \<open>chunk_text\<close> carry the caller's metadata, their position
  as \<open>chunk_index\<close> and the number of segments as \<open>chunk_count\<close>.
\<close>

lemma chunk_text_indices:
  assumes "chunk_text c text md = cs" "i < length cs"
  shows "metadata (cs ! i) ''chunk_index'' = Some (PyInt (int i))"
    and "metadata (cs ! i) ''chunk_count'' = Some (PyInt (int (length cs)))"
    and "k \<noteq> ''chunk_index'' \<Longrightarrow> k \<noteq> ''chunk_count'' \<Longrightarrow> metadata (cs ! i) k = or_empty md k"
  using assms by (auto simp: chunk_text_def Let_def nth_enumerate_eq split: if_splits)

text \<open>
  Claim C1 asks that every segment of a document carry \<open>chunk_index\<close>, its position in
  the whole document, and \<open>chunk_count\<close>, the number of segments of the document, also
  for \<open>chunk_markdown\<close> with \<open>preserve_code_blocks\<close>. There \<open>chunk_markdown\<close> calls
  \<open>chunk_text\<close> once for each part and adds the code segments itself: on the document
  \<open>intro\<close>, a fenced block, \<open>outro\<close> it returns three segments, where the code segment
  has neither field and both prose segments have index 0 and count 1.
\<close>

theorem chunk_markdown_indices_restart:
  "map (\<lambda>ch. metadata ch ''chunk_index'')
       (chunk_markdown example_chunker example_markdown (Some [''url'' \<mapsto> PyStr ''https://x.dev/a'']) True)
     = [Some (PyInt 0), None, Some (PyInt 0)]
   \<and> map (\<lambda>ch. metadata ch ''chunk_count'')
       (chunk_markdown example_chunker example_markdown (Some [''url'' \<mapsto> PyStr ''https://x.dev/a'']) True)
     = [Some (PyInt 1), None, Some (PyInt 1)]"
  by (simp add: chunk_markdown_def example_parts chunk_text_def count_tokens_def example_chunker_def
        strip_def rstrip_def isspace_def or_empty_def newline_def Let_def)

section \<open>URL filter and normalisation\<close>

lemmas example_eval =
  extract_links_from_page_def extract_links_try_def example_world_def example_hrefs_def
  truthy_def normalize_url_def or_base_def startswith_def example_urlparse_def should_skip_def
  example_scraper_def common_skips_def lower_def lower_char_def rstrip_def Let_def

text \<open>
  Claim C4, as stated, fails: a URL that holds \<open>.pdf\<close> in the middle of its path is
  skipped, though it is not visited, starts with the base URL, holds no skip pattern, no
  anchor, no \<open>javascript:\<close> or \<open>mailto:\<close>, and ends in none of the extensions.
\<close>

theorem should_skip_substring_counterexample:
  "should_skip example_scraper ''https://x.dev/guide.pdf/intro''
   \<and> \<not> should_skip_spec example_scraper ''https://x.dev/guide.pdf/intro''"
  by (simp add: should_skip_def should_skip_spec_def example_scraper_def common_skips_def
      common_extensions_def startswith_def lower_def lower_char_def suffix_to_prefix)

text \<open>
  Claim C4, amended. \<open>should_skip\<close> is true if and only if the URL is in the visited
  set, or does not start with the base URL, or holds a configured skip pattern as a
  substring, or its lower-cased form holds one of the common non-document markers as a
  substring, anywhere in the URL and not only at its end.
\<close>

theorem should_skip_iff:
  "should_skip s url \<longleftrightarrow>
     url \<in> visited_urls s
     \<or> \<not> startswith url (base_url s)
     \<or> (\<exists>pattern\<in>set (skip_patterns s). \<exists>a b. url = a @ pattern @ b)
     \<or> (\<exists>skip\<in>set common_skips. \<exists>a b. lower url = a @ skip @ b)"
  by (simp add: should_skip_def list_ex_iff contains_iff)

lemma example_skip_upper_case: "should_skip example_scraper ''https://x.dev/Logo.PNG''"
  by code_simp

theorem should_skip_iff_witness:
  "should_skip example_scraper ''https://x.dev/Logo.PNG''
   \<and> should_skip example_scraper ''https://x.dev/blog/post''
   \<and> should_skip example_scraper ''https://other.org/page''
   \<and> \<not> should_skip example_scraper ''https://x.dev/docs/intro''"
proof -
  from should_skip_iff [of example_scraper "''https://other.org/page''"]
  have "should_skip example_scraper ''https://other.org/page''"
    by (simp add: example_scraper_def startswith_def)
  moreover have "should_skip example_scraper ''https://x.dev/blog/post''"
    by (simp add: should_skip_def example_scraper_def startswith_def)
  moreover have "\<not> should_skip example_scraper ''https://x.dev/docs/intro''"
    by (simp add: should_skip_def example_scraper_def common_skips_def
        startswith_def lower_def lower_char_def)
  ultimately show ?thesis using example_skip_upper_case by simp
qed

lemma normalize_url_absolute:
  "startswith url ''http'' \<Longrightarrow>
   normalize_url w s url base = Inr (rstrip (\<lambda>c. c = CHR ''/'') (takeWhile (\<lambda>c. c \<noteq> CHR ''#'') url))"
proof -
  assume a: "startswith url ''http''"
  then have "\<not> startswith url ''/''"
    by (cases url) (auto simp: startswith_def)
  then show ?thesis
    using a by (simp add: normalize_url_def Let_def py_split_hd)
qed

lemma takeWhile_http:
  "startswith url ''http'' \<Longrightarrow> startswith (rstrip (\<lambda>c. c = CHR ''/'') (takeWhile (\<lambda>c. c \<noteq> CHR ''#'') url)) ''http''"
proof -
  assume "startswith url ''http''"
  then obtain r where u: "url = ''http'' @ r" by (auto simp: startswith_def prefix_def)
  have "takeWhile (\<lambda>c. c \<noteq> CHR ''#'') url = ''http'' @ takeWhile (\<lambda>c. c \<noteq> CHR ''#'') r"
    unfolding u by simp
  then show ?thesis
    using rstrip_append_keep [of "''http''" "\<lambda>c. c = CHR ''/''" "takeWhile (\<lambda>c. c \<noteq> CHR ''#'') r"]
    by (simp add: startswith_def)
qed

text \<open>
  Claim C8, as stated, fails on an absolute URL that ends in two slashes: the code removes
  both, a single slash removed would leave one.
\<close>

theorem normalize_url_double_slash:
  "normalize_url example_world example_scraper ''https://x.dev/docs//'' None = Inr ''https://x.dev/docs''
   \<and> strip_single_slash (strip_fragment ''https://x.dev/docs//'') = ''https://x.dev/docs/''"
  by (simp add: example_eval strip_single_slash_def strip_fragment_def)

text \<open>
  Claim C8, amended. For every absolute URL (one starting with \<open>http\<close>), normalisation
  returns the part before the first \<open>#\<close> with all its trailing slashes removed: the
  result holds no \<open>#\<close> and does not end in a slash, and a URL with and without a
  trailing slash have the same normal form.
\<close>

theorem normalize_url_absolute_canonical:
  assumes "startswith url ''http''"
  shows "normalize_url w s url base = Inr (rstrip (\<lambda>c. c = CHR ''/'') (strip_fragment url))
       \<and> CHR ''#'' \<notin> set (rstrip (\<lambda>c. c = CHR ''/'') (strip_fragment url))
       \<and> \<not> suffix ''/'' (rstrip (\<lambda>c. c = CHR ''/'') (strip_fragment url))
       \<and> normalize_url w s (strip_fragment url @ ''/'') base = normalize_url w s url base"
proof -
  let ?r = "rstrip (\<lambda>c. c = CHR ''/'') (strip_fragment url)"
  have a: "normalize_url w s url base = Inr ?r"
    unfolding strip_fragment_def by (rule normalize_url_absolute [OF assms])
  have b: "CHR ''#'' \<notin> set ?r"
    unfolding strip_fragment_def using rstrip_subset takeWhile_no_hash by fastforce
  have c: "\<not> suffix ''/'' ?r"
    using rstrip_no_suffix [of "\<lambda>c. c = CHR ''/''" "strip_fragment url" ?r]
    by (auto simp: suffix_def)
  obtain r where u: "url = ''http'' @ r" using assms by (auto simp: startswith_def prefix_def)
  have f: "strip_fragment url = ''http'' @ takeWhile (\<lambda>c. c \<noteq> CHR ''#'') r"
    unfolding u strip_fragment_def by simp
  then have h: "startswith (strip_fragment url @ ''/'') ''http''"
    by (simp add: startswith_def)
  have "CHR ''#'' \<notin> set (strip_fragment url)"
    unfolding strip_fragment_def by (rule takeWhile_no_hash)
  then have "takeWhile (\<lambda>c. c \<noteq> CHR ''#'') (strip_fragment url @ ''/'') = strip_fragment url @ ''/''"
    by (intro takeWhile_id) simp
  moreover have "rstrip (\<lambda>c. c = CHR ''/'') (strip_fragment url @ ''/'') = ?r"
    by (simp add: rstrip_def)
  ultimately have d: "normalize_url w s (strip_fragment url @ ''/'') base = Inr ?r"
    using normalize_url_absolute [OF h, of w s base] by simp
  show ?thesis using a b c d by simp
qed

theorem normalize_url_absolute_canonical_witness:
  "normalize_url example_world example_scraper ''https://x.dev/docs/#intro'' (Some ''https://x.dev/a'')
     = Inr ''https://x.dev/docs''
   \<and> normalize_url example_world example_scraper ''https://x.dev/docs/'' (Some ''https://x.dev/a'')
     = Inr ''https://x.dev/docs''
   \<and> normalize_url example_world example_scraper ''https://x.dev/docs'' (Some ''https://x.dev/a'')
     = Inr ''https://x.dev/docs''"
  using normalize_url_absolute_canonical [of "''https://x.dev/docs''" example_world example_scraper "Some ''https://x.dev/a''"]
  by (simp add: example_eval)

text \<open>
  Claim C3 asks that normalising a second time change nothing. The code comments its last
  step as removing fragments and trailing slashes for consistency, and applies it to
  absolute URLs only: the branches for root-relative and other relative URLs return
  before it. On the link \<open>/docs/\<close> of a page of \<open>https://x.dev\<close> the first application
  returns \<open>https://x.dev/docs/\<close>, with the slash, and the second, now on an absolute URL,
  returns \<open>https://x.dev/docs\<close>: one page under two spellings.
\<close>

theorem normalize_url_not_idempotent:
  "normalize_url example_world example_scraper ''/docs/'' (Some ''https://x.dev'')
     = Inr ''https://x.dev/docs/''
   \<and> normalize_url example_world example_scraper ''https://x.dev/docs/'' (Some ''https://x.dev'')
     = Inr ''https://x.dev/docs''"
  by (simp add: example_eval)

text \<open>
  The branch for absolute URLs does what the claim says: there normalisation returns, and
  applying it to its result gives the same result again.
\<close>

lemma normalize_url_idempotent_absolute:
  assumes "startswith url ''http''"
  shows "\<exists>r. normalize_url w s url base = Inr r \<and> normalize_url w s r base = Inr r"
proof -
  let ?r = "rstrip (\<lambda>c. c = CHR ''/'') (takeWhile (\<lambda>c. c \<noteq> CHR ''#'') url)"
  have a: "normalize_url w s url base = Inr ?r"
    by (rule normalize_url_absolute [OF assms])
  have h: "startswith ?r ''http''" by (rule takeWhile_http [OF assms])
  have "CHR ''#'' \<notin> set ?r" using rstrip_subset takeWhile_no_hash by fastforce
  then have "takeWhile (\<lambda>c. c \<noteq> CHR ''#'') ?r = ?r" by (rule takeWhile_id)
  then have "rstrip (\<lambda>c. c = CHR ''/'') (takeWhile (\<lambda>c. c \<noteq> CHR ''#'') ?r) = ?r"
    by (simp only: rstrip_idem)
  then have "normalize_url w s ?r base = Inr ?r"
    using normalize_url_absolute [OF h, of w s base] by (simp only:)
  then show ?thesis using a by blast
qed

section \<open>The traversal\<close>

subsection \<open>What link extraction returns\<close>





lemma extract_links_no_exception:
  "extract_links_from_page w s url sel \<noteq> Inl (Exception e)"
  by (auto simp: extract_links_from_page_def split: sum.splits exn.splits)

lemma fetch_failure:
  "fetch_url w url = Inl e \<Longrightarrow> extract_links_try w s url selector = Inl e"
  by (simp add: extract_links_try_def)

lemma parse_failure:
  "fetch_url w url = Inr html \<Longrightarrow> BeautifulSoup w html = Inl e \<Longrightarrow>
   extract_links_try w s url selector = Inl e"
  by (simp add: extract_links_try_def)

lemma example_links_a:
  "extract_links_from_page example_world example_scraper ''https://x.dev/a'' None
     = Inr [''https://x.dev/b'', ''https://x.dev/c'']"
  by (simp add: extract_links_from_page_def extract_links_try_def example_world_def example_hrefs_def
      truthy_def normalize_url_def or_base_def startswith_def example_urlparse_def should_skip_def
      example_scraper_def common_skips_def lower_def lower_char_def rstrip_def Let_def)

subsection \<open>The invariant of the loop\<close>

lemma bfs_inv_init: "0 \<le> D \<Longrightarrow> bfs_inv links D seed [(seed, 0)] {}"
  by (simp add: bfs_inv_def inv_entries_def inv_order_def inv_seed_def inv_closed_def inv_layers_def)

lemma order_tail: "inv_order (e # q) \<Longrightarrow> inv_order q"
  by (cases q) (auto simp: inv_order_def)

lemma order_ge: "inv_order (e # q) \<Longrightarrow> x \<in> set q \<Longrightarrow> snd e \<le> snd x"
  by (auto simp: inv_order_def)

lemma order_le: "inv_order (e # q) \<Longrightarrow> x \<in> set q \<Longrightarrow> snd x \<le> snd e + 1"
  by (auto simp: inv_order_def)

lemma order_hd_ge: "inv_order (e # q) \<Longrightarrow> q \<noteq> [] \<Longrightarrow> snd e \<le> snd (hd q)"
  by (cases q) (auto simp: inv_order_def)

lemma order_all_ge_hd: "inv_order q \<Longrightarrow> x \<in> set q \<Longrightarrow> snd (hd q) \<le> snd x"
  by (cases q) (auto simp: inv_order_def)

text \<open>
  When the head of the queue is the last entry of its depth, the layer of that depth is
  complete.
\<close>

lemma layer_done:
  assumes inv: "bfs_inv links D seed ((u, d) # q) V"
    and dD: "d \<le> D"
    and x: "x \<in> steps links (nat d) seed"
    and nq: "(x, d) \<notin> set q"
    and xu: "x \<noteq> u"
  shows "x \<in> V"
proof -
  from inv have ent: "inv_entries links D seed ((u, d) # q)" and ord: "inv_order ((u, d) # q)"
    and sd: "inv_seed seed ((u, d) # q) V" and cl: "inv_closed links D seed ((u, d) # q) V"
    and ly: "inv_layers links seed ((u, d) # q) V"
    by (simp_all add: bfs_inv_def)
  from ent have d0: "0 \<le> d" by (simp add: inv_entries_def)
  show ?thesis
  proof (cases "nat d")
    case 0
    then have "d = 0" "x = seed" using d0 x by simp_all
    then show ?thesis using sd nq xu by (auto simp: inv_seed_def)
  next
    case (Suc k)
    then obtain p where p: "p \<in> steps links k seed" and xp: "x \<in> set (links p)"
      using x by auto
    have kd: "int k < d" using Suc by linarith
    then have pV: "p \<in> V" using ly p by (auto simp: inv_layers_def)
    have "int k < D" using kd dD by simp
    then have "x \<in> V \<or> (\<exists>d'. d' \<le> int k + 1 \<and> (x, d') \<in> set ((u, d) # q))"
      using cl pV p xp unfolding inv_closed_def by blast
    then show ?thesis
    proof
      assume "x \<in> V" then show ?thesis .
    next
      assume "\<exists>d'. d' \<le> int k + 1 \<and> (x, d') \<in> set ((u, d) # q)"
      then obtain d' where d': "d' \<le> int k + 1" and m: "(x, d') \<in> set ((u, d) # q)" by blast
      have "d' \<le> d" using d' Suc by linarith
      moreover have "d \<le> d'" using m order_ge [OF ord, of "(x, d')"] by auto
      ultimately have "d' = d" by simp
      then show ?thesis using m nq xu by auto
    qed
  qed
qed

lemma layers_next:
  assumes inv: "bfs_inv links D seed ((u, d) # q) V"
    and sub: "V \<subseteq> V'"
    and uV: "d \<le> D \<Longrightarrow> u \<in> V'"
    and ent': "inv_entries links D seed q'"
    and ord': "inv_order q'"
    and hd': "q' \<noteq> [] \<Longrightarrow> d \<le> snd (hd q') \<and> snd (hd q') \<le> d + 1"
    and qq: "set q \<subseteq> set q'"
  shows "inv_layers links seed q' V'"
  unfolding inv_layers_def
proof (intro impI allI)
  fix k
  assume ne: "q' \<noteq> []" and k: "int k < snd (hd q')"
  from inv have ly: "inv_layers links seed ((u, d) # q) V" by (simp add: bfs_inv_def)
  from inv have d0: "0 \<le> d" by (simp add: bfs_inv_def inv_entries_def)
  show "steps links k seed \<subseteq> V'"
  proof (cases "int k < d")
    case True
    then show ?thesis using ly sub by (auto simp: inv_layers_def)
  next
    case False
    then have kd: "int k = d" and h: "snd (hd q') = d + 1" using k hd' [OF ne] by linarith+
    have "hd q' \<in> set q'" using ne by simp
    then have "snd (hd q') \<le> D + 1" using ent' by (auto simp: inv_entries_def)
    then have dD: "d \<le> D" using h by simp
    show ?thesis
    proof
      fix x assume x: "x \<in> steps links k seed"
      have xs: "x \<in> steps links (nat d) seed" using x kd by (metis nat_int)
      have nq: "(x, d) \<notin> set q"
      proof
        assume "(x, d) \<in> set q"
        then have "(x, d) \<in> set q'" using qq by blast
        then have "snd (hd q') \<le> d" using order_all_ge_hd [OF ord'] by fastforce
        then show False using h by simp
      qed
      show "x \<in> V'"
      proof (cases "x = u")
        case True
        then show ?thesis using uV dD by simp
      next
        case False
        then show ?thesis using layer_done [OF inv dD xs nq] sub by blast
      qed
    qed
  qed
qed

lemma inv_skip:
  assumes inv: "bfs_inv links D seed ((u, d) # q) V" and sk: "u \<in> V \<or> D < d"
  shows "bfs_inv links D seed q V"
proof -
  from inv have D0: "0 \<le> D" and sound: "V \<subseteq> within links D seed"
    and ent: "inv_entries links D seed ((u, d) # q)" and ord: "inv_order ((u, d) # q)"
    and sd: "inv_seed seed ((u, d) # q) V" and cl: "inv_closed links D seed ((u, d) # q) V"
    and ly: "inv_layers links seed ((u, d) # q) V"
    by (simp_all add: bfs_inv_def)
  have ent': "inv_entries links D seed q" using ent by (simp add: inv_entries_def)
  have ord': "inv_order q" using ord by (rule order_tail)
  have sd': "inv_seed seed q V" using sd sk D0 by (auto simp: inv_seed_def)
  have cl': "inv_closed links D seed q V"
    unfolding inv_closed_def
  proof (intro ballI allI impI)
    fix v k w
    assume v: "v \<in> V" and k: "int k < D" and s: "v \<in> steps links k seed" and w: "w \<in> set (links v)"
    then have "w \<in> V \<or> (\<exists>d'. d' \<le> int k + 1 \<and> (w, d') \<in> set ((u, d) # q))"
      using cl unfolding inv_closed_def by blast
    then show "w \<in> V \<or> (\<exists>d'. d' \<le> int k + 1 \<and> (w, d') \<in> set q)"
      using sk k by auto
  qed
  have ly': "inv_layers links seed q V"
  proof (cases "u \<in> V")
    case True
    show ?thesis
    proof (rule layers_next [OF inv _ _ ent' ord'])
      show "V \<subseteq> V" by simp
      show "u \<in> V" by (rule True)
      show "d \<le> snd (hd q) \<and> snd (hd q) \<le> d + 1" if "q \<noteq> []"
        using order_hd_ge [OF ord that] order_le [OF ord, of "hd q"] that by simp
      show "set q \<subseteq> set q" by simp
    qed
  next
    case False
    then have dd: "D < d" using sk by simp
    show ?thesis
      unfolding inv_layers_def
    proof (intro impI allI)
      fix k assume ne: "q \<noteq> []" and k: "int k < snd (hd q)"
      have "hd q \<in> set q" using ne by simp
      then have "snd (hd q) \<le> D + 1" using ent' by (auto simp: inv_entries_def)
      then have "int k < d" using k dd by simp
      then show "steps links k seed \<subseteq> V" using ly by (auto simp: inv_layers_def)
    qed
  qed
  show ?thesis using D0 sound ent' ord' sd' cl' ly' by (simp add: bfs_inv_def)
qed

lemma steps_Suc_mem: "v \<in> steps links k u \<Longrightarrow> w \<in> set (links v) \<Longrightarrow> w \<in> steps links (Suc k) u"
  by auto

lemma inv_visit:
  assumes inv: "bfs_inv links D seed ((u, d) # q) V" and uV: "u \<notin> V" and dD: "d \<le> D"
  shows "bfs_inv links D seed
           (q @ map (\<lambda>link. (link, d + 1)) (filter (\<lambda>link. link \<notin> insert u V) (links u)))
           (insert u V)"
    (is "bfs_inv links D seed ?q' ?V'")
proof -
  from inv have D0: "0 \<le> D" and sound: "V \<subseteq> within links D seed"
    and ent: "inv_entries links D seed ((u, d) # q)" and ord: "inv_order ((u, d) # q)"
    and sd: "inv_seed seed ((u, d) # q) V" and cl: "inv_closed links D seed ((u, d) # q) V"
    and ly: "inv_layers links seed ((u, d) # q) V"
    by (simp_all add: bfs_inv_def)
  from ent have d0: "0 \<le> d" and us: "u \<in> steps links (nat d) seed"
    by (simp_all add: inv_entries_def)
  have "int (nat d) \<le> D" using d0 dD by simp
  then have "u \<in> within links D seed" using us unfolding within_def by blast
  then have sound': "?V' \<subseteq> within links D seed" using sound by simp
  have nd: "nat (d + 1) = Suc (nat d)" using d0 by simp
  have ent': "inv_entries links D seed ?q'"
    using ent d0 dD us unfolding inv_entries_def nd
    by (auto simp: nd intro: steps_Suc_mem)
  have "sorted (map snd (map (\<lambda>link. (link, d + 1)) xs))" for xs :: "string list"
    by (induction xs) auto
  then have srt: "sorted (map snd ?q')"
    using ord order_le [OF ord]
    by (auto simp: inv_order_def sorted_append simp del: map_map)
  have hdge: "d \<le> snd (hd ?q')" if "?q' \<noteq> []"
  proof (cases q)
    case Nil
    then show ?thesis using that by (cases "filter (\<lambda>link. link \<notin> insert u V) (links u)") auto
  next
    case (Cons e es)
    then show ?thesis using order_ge [OF ord, of e] by simp
  qed
  have allle: "\<forall>e\<in>set ?q'. snd e \<le> d + 1"
    using order_le [OF ord] by auto
  have ord': "inv_order ?q'"
    unfolding inv_order_def
  proof (intro conjI ballI)
    show "sorted (map snd ?q')" by (rule srt)
    fix e assume e: "e \<in> set ?q'"
    then have "?q' \<noteq> []" by (auto simp: filter_empty_conv)
    then show "snd e \<le> snd (hd ?q') + 1" using hdge allle e by fastforce
  qed
  have sd': "inv_seed seed ?q' ?V'" using sd by (auto simp: inv_seed_def)
  have cl': "inv_closed links D seed ?q' ?V'"
    unfolding inv_closed_def
  proof (intro ballI allI impI)
    fix v k w
    assume v: "v \<in> ?V'" and k: "int k < D" and s: "v \<in> steps links k seed" and w: "w \<in> set (links v)"
    show "w \<in> ?V' \<or> (\<exists>d'. d' \<le> int k + 1 \<and> (w, d') \<in> set ?q')"
    proof (cases "v = u")
      case True
      have "d \<le> int k"
      proof (rule ccontr)
        assume "\<not> d \<le> int k"
        then have "int k < d" by simp
        then have "steps links k seed \<subseteq> V" using ly by (auto simp: inv_layers_def)
        then show False using s True uV by blast
      qed
      then have dk: "d + 1 \<le> int k + 1" by simp
      show ?thesis
      proof (cases "w \<in> ?V'")
        case True
        then show ?thesis by blast
      next
        case False
        then have "(w, d + 1) \<in> set ?q'" using w \<open>v = u\<close> by auto
        then show ?thesis using dk by blast
      qed
    next
      case False
      then have "v \<in> V" using v by simp
      then have "w \<in> V \<or> (\<exists>d'. d' \<le> int k + 1 \<and> (w, d') \<in> set ((u, d) # q))"
        using cl k s w unfolding inv_closed_def by blast
      then show ?thesis by auto
    qed
  qed
  have ly': "inv_layers links seed ?q' ?V'"
  proof (rule layers_next [OF inv _ _ ent' ord'])
    show "V \<subseteq> ?V'" by blast
    show "u \<in> ?V'" by simp
    show "d \<le> snd (hd ?q') \<and> snd (hd ?q') \<le> d + 1" if "?q' \<noteq> []"
    proof -
      have "hd ?q' \<in> set ?q'" using that by (rule hd_in_set)
      then show ?thesis using hdge [OF that] allle by blast
    qed
    show "set q \<subseteq> set ?q'" by auto
  qed
  show ?thesis using D0 sound' ent' ord' sd' cl' ly' by (simp add: bfs_inv_def)
qed

lemma inv_final:
  assumes inv: "bfs_inv links D seed [] V"
  shows "V = within links D seed"
proof -
  from inv have D0: "0 \<le> D" and sound: "V \<subseteq> within links D seed"
    and sd: "seed \<in> V" and cl: "inv_closed links D seed [] V"
    by (simp_all add: bfs_inv_def inv_seed_def)
  have "int k \<le> D \<Longrightarrow> steps links k seed \<subseteq> V" for k
  proof (induction k)
    case 0
    then show ?case using sd by simp
  next
    case (Suc k)
    then have kD: "int k < D" and ih: "steps links k seed \<subseteq> V" by simp_all
    show ?case
    proof
      fix x assume "x \<in> steps links (Suc k) seed"
      then obtain p where p: "p \<in> steps links k seed" and xp: "x \<in> set (links p)" by auto
      then show "x \<in> V" using cl ih kD unfolding inv_closed_def by fastforce
    qed
  qed
  then have "within links D seed \<subseteq> V" unfolding within_def by blast
  then show ?thesis using sound by blast
qed

lemma within_negative: "D < 0 \<Longrightarrow> within links D seed = {}"
  by (auto simp: within_def)


text \<open>
  Two rules for the loop: a property of the state that the two branches keep holds of the
  result when the loop returns, and held of the state in which a page raised when the
  loop raises.
\<close>

lemma crawl_loop_returns:
  assumes "crawl_loop f D q V cr = Inr r" and "P q V cr"
    and skip: "\<And>u d q V cr. P ((u, d) # q) V cr \<Longrightarrow> u \<in> V \<or> D < d \<Longrightarrow> P q V cr"
    and visit: "\<And>u d q V cr links. P ((u, d) # q) V cr \<Longrightarrow> u \<notin> V \<Longrightarrow> d \<le> D \<Longrightarrow>
        f u = Inr links \<Longrightarrow>
        P (q @ map (\<lambda>link. (link, d + 1)) (filter (\<lambda>link. link \<notin> insert u V) links))
          (insert u V) (cr @ [(u, d)])"
  shows "P [] (fst r) (snd r)"
proof -
  have "crawl_loop g E q V cr = Inr r \<Longrightarrow> g = f \<Longrightarrow> E = D \<Longrightarrow> P q V cr \<Longrightarrow> P [] (fst r) (snd r)"
    for g E
  proof (induction g E q V cr rule: crawl_loop.induct)
    case (1 g max_depth all_urls crawled)
    then show ?case by auto
  next
    case (2 g max_depth url depth to_visit all_urls crawled)
    have g: "g = f" and m: "max_depth = D" by (rule "2.prems"(2), rule "2.prems"(3))
    show ?case
    proof (cases "url \<in> all_urls \<or> max_depth < depth")
      case True
      have "P to_visit all_urls crawled"
        using skip [OF "2.prems"(4)] True m by simp
      moreover have "crawl_loop g max_depth to_visit all_urls crawled = Inr r"
        using "2.prems"(1) True by simp
      ultimately show ?thesis using "2.IH"(1) [OF True _ g m] by blast
    next
      case False
      then obtain links where l: "g url = Inr links"
        using "2.prems"(1) by (cases "g url") auto
      from False have nv: "url \<notin> all_urls" "depth \<le> D" using m by simp_all
      have "P (to_visit @ map (\<lambda>link. (link, depth + 1))
                 (filter (\<lambda>link. link \<notin> insert url all_urls) links))
              (insert url all_urls) (crawled @ [(url, depth)])"
        using visit [OF "2.prems"(4) nv] l g by simp
      moreover have "crawl_loop g max_depth
              (to_visit @ map (\<lambda>link. (link, depth + 1))
                 (filter (\<lambda>link. link \<notin> insert url all_urls) links))
              (insert url all_urls) (crawled @ [(url, depth)]) = Inr r"
        using "2.prems"(1) False l by simp
      ultimately show ?thesis using "2.IH"(2) [OF False l _ g m] by blast
    qed
  qed
  then show ?thesis using assms(1,2) by blast
qed

lemma crawl_loop_raises:
  assumes "crawl_loop f D q V cr = Inl e" and "P q V cr"
    and skip: "\<And>u d q V cr. P ((u, d) # q) V cr \<Longrightarrow> u \<in> V \<or> D < d \<Longrightarrow> P q V cr"
    and visit: "\<And>u d q V cr links. P ((u, d) # q) V cr \<Longrightarrow> u \<notin> V \<Longrightarrow> d \<le> D \<Longrightarrow>
        f u = Inr links \<Longrightarrow>
        P (q @ map (\<lambda>link. (link, d + 1)) (filter (\<lambda>link. link \<notin> insert u V) links))
          (insert u V) (cr @ [(u, d)])"
  shows "\<exists>u d q V cr. P ((u, d) # q) V cr \<and> u \<notin> V \<and> d \<le> D \<and> f u = Inl e"
proof -
  have "crawl_loop g E q V cr = Inl e \<Longrightarrow> g = f \<Longrightarrow> E = D \<Longrightarrow> P q V cr \<Longrightarrow>
        \<exists>u d q V cr. P ((u, d) # q) V cr \<and> u \<notin> V \<and> d \<le> D \<and> f u = Inl e"
    for g E
  proof (induction g E q V cr rule: crawl_loop.induct)
    case (1 g max_depth all_urls crawled)
    then show ?case by simp
  next
    case (2 g max_depth url depth to_visit all_urls crawled)
    have g: "g = f" and m: "max_depth = D" by (rule "2.prems"(2), rule "2.prems"(3))
    show ?case
    proof (cases "url \<in> all_urls \<or> max_depth < depth")
      case True
      have "P to_visit all_urls crawled"
        using skip [OF "2.prems"(4)] True m by simp
      moreover have "crawl_loop g max_depth to_visit all_urls crawled = Inl e"
        using "2.prems"(1) True by simp
      ultimately show ?thesis using "2.IH"(1) [OF True _ g m] by blast
    next
      case False
      then have nv: "url \<notin> all_urls" "depth \<le> D" using m by simp_all
      show ?thesis
      proof (cases "g url")
        case (Inl e')
        then have "f url = Inl e" using "2.prems"(1) False g by simp
        then show ?thesis using "2.prems"(4) nv by blast
      next
        case (Inr links)
        have "P (to_visit @ map (\<lambda>link. (link, depth + 1))
                   (filter (\<lambda>link. link \<notin> insert url all_urls) links))
                (insert url all_urls) (crawled @ [(url, depth)])"
          using visit [OF "2.prems"(4) nv] Inr g by simp
        moreover have "crawl_loop g max_depth
                (to_visit @ map (\<lambda>link. (link, depth + 1))
                   (filter (\<lambda>link. link \<notin> insert url all_urls) links))
                (insert url all_urls) (crawled @ [(url, depth)]) = Inl e"
          using "2.prems"(1) False Inr by simp
        ultimately show ?thesis using "2.IH"(2) [OF False Inr _ g m] by blast
      qed
    qed
  qed
  then show ?thesis using assms(1,2) by blast
qed

subsection \<open>The order of the visits\<close>

lemma log_skip:
  assumes "bfs_inv links D seed ((u, d) # q) V" and "log_inv links seed ((u, d) # q) V crawled"
  shows "log_inv links seed q V crawled"
proof -
  from assms(1) have ord: "inv_order ((u, d) # q)" by (simp add: bfs_inv_def)
  have "snd e \<le> snd (hd q)" if "q \<noteq> []" "e \<in> set crawled" for e
  proof -
    have "snd e \<le> d" using assms(2) that(2) by (simp add: log_inv_def)
    then show ?thesis using order_hd_ge [OF ord that(1)] by simp
  qed
  then show ?thesis using assms(2) by (simp add: log_inv_def)
qed

lemma log_visit:
  assumes inv: "bfs_inv links D seed ((u, d) # q) V"
    and lg: "log_inv links seed ((u, d) # q) V crawled"
    and uV: "u \<notin> V" and dD: "d \<le> D"
  shows "log_inv links seed
           (q @ map (\<lambda>link. (link, d + 1)) (filter (\<lambda>link. link \<notin> insert u V) (links u)))
           (insert u V) (crawled @ [(u, d)])"
    (is "log_inv links seed ?q' ?V' ?c'")
proof -
  from inv have ent: "inv_entries links D seed ((u, d) # q)" and ord: "inv_order ((u, d) # q)"
    and ly: "inv_layers links seed ((u, d) # q) V"
    by (simp_all add: bfs_inv_def)
  from ent have d0: "0 \<le> d" and us: "u \<in> steps links (nat d) seed"
    by (simp_all add: inv_entries_def)
  from lg have set: "fst ` set crawled = V" and dist: "distinct (map fst crawled)"
    and srt: "sorted (map snd crawled)"
    and exact: "\<forall>e\<in>set crawled. 0 \<le> snd e \<and> fst e \<in> steps links (nat (snd e)) seed
             \<and> (\<forall>k. int k < snd e \<longrightarrow> fst e \<notin> steps links k seed)"
    and le: "\<forall>e\<in>set crawled. snd e \<le> d"
    by (simp_all add: log_inv_def)
  have a: "fst ` set ?c' = ?V'" using set by auto
  have b: "distinct (map fst ?c')" using dist set uV by auto
  have c: "sorted (map snd ?c')" using srt le by (auto simp: sorted_append)
  have umin: "\<forall>k. int k < d \<longrightarrow> u \<notin> steps links k seed"
    using ly uV by (auto simp: inv_layers_def)
  have e: "\<forall>e\<in>set ?c'. 0 \<le> snd e \<and> fst e \<in> steps links (nat (snd e)) seed
             \<and> (\<forall>k. int k < snd e \<longrightarrow> fst e \<notin> steps links k seed)"
    using exact d0 us umin by auto
  have hdge: "d \<le> snd (hd ?q')" if "?q' \<noteq> []"
  proof (cases q)
    case Nil
    then show ?thesis using that by (cases "filter (\<lambda>link. link \<notin> insert u V) (links u)") auto
  next
    case (Cons x xs)
    then show ?thesis using order_ge [OF ord, of x] by simp
  qed
  have f: "?q' \<noteq> [] \<longrightarrow> (\<forall>e\<in>set ?c'. snd e \<le> snd (hd ?q'))"
    using hdge le by fastforce
  show ?thesis unfolding log_inv_def using a b c e f by blast
qed

lemma crawl_inv_init: "0 \<le> D \<Longrightarrow> crawl_inv links D seed [(seed, 0)] {} []"
  using bfs_inv_init [of D links seed] by (simp add: crawl_inv_def log_inv_def)

lemma crawl_inv_skip:
  "crawl_inv links D seed ((u, d) # q) V cr \<Longrightarrow> u \<in> V \<or> D < d \<Longrightarrow>
   crawl_inv links D seed q V cr"
  unfolding crawl_inv_def using inv_skip log_skip by blast

lemma crawl_inv_visit:
  assumes "crawl_inv (links_of f) D seed ((u, d) # q) V cr" "u \<notin> V" "d \<le> D" "f u = Inr links"
  shows "crawl_inv (links_of f) D seed
           (q @ map (\<lambda>link. (link, d + 1)) (filter (\<lambda>link. link \<notin> insert u V) links))
           (insert u V) (cr @ [(u, d)])"
proof -
  have l: "links_of f u = links" using assms(4) by (simp add: links_of_def)
  from assms(1) have i: "bfs_inv (links_of f) D seed ((u, d) # q) V"
    and g: "log_inv (links_of f) seed ((u, d) # q) V cr"
    by (simp_all add: crawl_inv_def)
  from inv_visit [OF i assms(2,3)] log_visit [OF i g assms(2,3)]
  show ?thesis unfolding crawl_inv_def l by simp
qed

lemma crawl_loop_result:
  assumes "crawl_loop f D [(seed, 0)] {} [] = Inr r"
  shows "fst r = within (links_of f) D seed \<and> bfs_log (links_of f) seed (fst r) (snd r)"
proof (cases "0 \<le> D")
  case True
  have "crawl_inv (links_of f) D seed [] (fst r) (snd r)"
  proof (rule crawl_loop_returns [where P = "crawl_inv (links_of f) D seed", OF assms])
    show "crawl_inv (links_of f) D seed [(seed, 0)] {} []" by (rule crawl_inv_init [OF True])
  qed (erule crawl_inv_skip, assumption, erule crawl_inv_visit, assumption+)
  then show ?thesis
    using inv_final [of "links_of f" D seed "fst r"] by (simp add: crawl_inv_def bfs_log_def)
next
  case False
  then have "r = ({}, [])" using assms by auto
  then show ?thesis using False by (simp add: within_negative bfs_log_def log_inv_def)
qed

lemma crawl_loop_exception:
  assumes "crawl_loop f D [(seed, 0)] {} [] = Inl e"
  shows "\<exists>u\<in>within (links_of f) D seed. f u = Inl e"
proof (cases "0 \<le> D")
  case True
  have "\<exists>u d q V cr. crawl_inv (links_of f) D seed ((u, d) # q) V cr \<and> u \<notin> V \<and> d \<le> D
      \<and> f u = Inl e"
  proof (rule crawl_loop_raises [where P = "crawl_inv (links_of f) D seed", OF assms])
    show "crawl_inv (links_of f) D seed [(seed, 0)] {} []" by (rule crawl_inv_init [OF True])
  qed (erule crawl_inv_skip, assumption, erule crawl_inv_visit, assumption+)
  then obtain u d q V cr where i: "crawl_inv (links_of f) D seed ((u, d) # q) V cr"
    and d: "d \<le> D" and e: "f u = Inl e"
    by blast
  from i have "0 \<le> d" and "u \<in> steps (links_of f) (nat d) seed"
    by (simp_all add: crawl_inv_def bfs_inv_def inv_entries_def)
  moreover have "int (nat d) \<le> D" using \<open>0 \<le> d\<close> d by simp
  ultimately have "u \<in> within (links_of f) D seed" unfolding within_def by blast
  then show ?thesis using e by blast
next
  case False
  then show ?thesis using assms by simp
qed

lemma bfs_log_distinct: "bfs_log links seed V crawled \<Longrightarrow> distinct (map fst crawled)"
  by (simp add: bfs_log_def log_inv_def)

lemma crawl_loop_mono:
  assumes "crawl_loop f D q V cr = Inr r"
  shows "V \<subseteq> fst r \<and> prefix cr (snd r)"
proof (rule crawl_loop_returns [where P = "\<lambda>q' V' cr'. V \<subseteq> V' \<and> prefix cr cr'", OF assms])
  show "V \<subseteq> V \<and> prefix cr cr" by simp
next
  fix u d q' V' cr'
  assume "V \<subseteq> V' \<and> prefix cr cr'"
  then show "V \<subseteq> V' \<and> prefix cr cr'" .
next
  fix u :: string and d :: int and V' cr'
  assume "V \<subseteq> V' \<and> prefix cr cr'"
  then show "V \<subseteq> insert u V' \<and> prefix cr (cr' @ [(u, d)])"
    by (auto simp: prefix_def)
qed

lemma example_crawl:
  "crawl_recursively example_world example_scraper ''https://x.dev/a'' 1 None
     = Inr ({''https://x.dev/a'', ''https://x.dev/b'', ''https://x.dev/c''},
        [(''https://x.dev/a'', 0), (''https://x.dev/b'', 1), (''https://x.dev/c'', 1)])"
  by (simp add: crawl_recursively_def extract_links_from_page_def extract_links_try_def
      example_world_def example_hrefs_def
      truthy_def normalize_url_def or_base_def startswith_def example_urlparse_def should_skip_def
      example_scraper_def common_skips_def lower_def lower_char_def rstrip_def Let_def insert_commute)

subsection \<open>The claims on the traversal\<close>

lemma crawl_recursively_result:
  assumes "crawl_recursively w s start D sel = Inr r"
  shows "fst r = within (page_links w s sel) D start"
    and "bfs_log (page_links w s sel) start (fst r) (snd r)"
proof -
  have "fst r = within (page_links w s sel) D start
      \<and> bfs_log (page_links w s sel) start (fst r) (snd r)"
    using assms unfolding crawl_recursively_def page_links_def by (rule crawl_loop_result)
  then show "fst r = within (page_links w s sel) D start"
    and "bfs_log (page_links w s sel) start (fst r) (snd r)"
    by blast+
qed

lemma crawl_recursively_exception:
  assumes "crawl_recursively w s start D sel = Inl e"
  shows "\<exists>u\<in>within (page_links w s sel) D start. extract_links_from_page w s u sel = Inl e"
  using assms unfolding crawl_recursively_def page_links_def by (rule crawl_loop_exception)

text \<open>
  Claim C5. The queue is served first in, first out, and an entry is skipped exactly when
  its URL is already in \<open>all_urls\<close> or its depth exceeds \<open>max_depth\<close> (the two branches of
  \<open>crawl_loop\<close>). Hence, for every seed, \<open>max_depth\<close> and link extraction, a traversal
  that returns has discovered exactly the URLs within \<open>max_depth\<close> link steps of the seed;
  every discovered URL is crawled once, in the order of the depths, and at the depth that
  is its least number of link steps from the seed. The traversal returns unless the
  extraction of a page within \<open>max_depth\<close> link steps lets an exception through, and then
  it raises that exception. In the scenario of the specification (\<open>a\<close> links to \<open>b\<close> and
  \<open>c\<close>, \<open>b\<close> links to \<open>d\<close>, \<open>max_depth = 1\<close>) the discovered set is \<open>a\<close>, \<open>b\<close>, \<open>c\<close>,
  without \<open>d\<close>.
\<close>

theorem crawl_recursively_breadth_first:
  "case crawl_recursively w s start D sel of
     Inr r \<Rightarrow>
       fst r = {u. \<exists>k. int k \<le> D \<and> u \<in> steps (page_links w s sel) k start}
       \<and> fst ` set (snd r) = fst r
       \<and> distinct (map fst (snd r))
       \<and> sorted (map snd (snd r))
       \<and> (\<forall>e\<in>set (snd r).
             0 \<le> snd e
             \<and> fst e \<in> steps (page_links w s sel) (nat (snd e)) start
             \<and> (\<forall>k. int k < snd e \<longrightarrow> fst e \<notin> steps (page_links w s sel) k start))
   | Inl e \<Rightarrow>
       \<exists>u k. int k \<le> D \<and> u \<in> steps (page_links w s sel) k start
             \<and> extract_links_from_page w s u sel = Inl e"
proof (cases "crawl_recursively w s start D sel")
  case (Inl e)
  from crawl_recursively_exception [OF Inl] show ?thesis
    unfolding Inl within_def by auto
next
  case (Inr r)
  from crawl_recursively_result [OF Inr] show ?thesis
    unfolding Inr within_def bfs_log_def log_inv_def by simp
qed

theorem crawl_recursively_breadth_first_witness:
  "crawl_recursively example_world example_scraper ''https://x.dev/a'' 1 None
     = Inr ({''https://x.dev/a'', ''https://x.dev/b'', ''https://x.dev/c''},
            [(''https://x.dev/a'', 0), (''https://x.dev/b'', 1), (''https://x.dev/c'', 1)])
   \<and> ''https://x.dev/d'' \<notin> {''https://x.dev/a'', ''https://x.dev/b'', ''https://x.dev/c''}
   \<and> {''https://x.dev/a'', ''https://x.dev/b'', ''https://x.dev/c''}
     = {u. \<exists>k. int k \<le> 1 \<and> u \<in> steps (page_links example_world example_scraper None) k ''https://x.dev/a''}"
proof -
  from crawl_recursively_breadth_first [where w = example_world and s = example_scraper
      and start = "''https://x.dev/a''" and D = 1 and sel = None]
  have "{''https://x.dev/a'', ''https://x.dev/b'', ''https://x.dev/c''}
     = {u. \<exists>k. int k \<le> 1 \<and> u \<in> steps (page_links example_world example_scraper None) k ''https://x.dev/a''}"
    unfolding example_crawl by (simp only: sum.case fst_conv)
  moreover have "''https://x.dev/d'' \<notin> {''https://x.dev/a'', ''https://x.dev/b'', ''https://x.dev/c''}"
    by simp
  ultimately show ?thesis using example_crawl by (intro conjI)
qed




text \<open>
  Claim C7, as stated, fails: when the fetch is cancelled, the exception is not an
  instance of \<open>Exception\<close>, the \<open>except Exception\<close> clause does not catch it, and it
  leaves link extraction and the traversal.
\<close>

theorem extract_links_cancelled:
  "extract_links_from_page cancelled_world example_scraper ''https://x.dev/a'' None
     = Inl (BaseException ''CancelledError'')
   \<and> crawl_recursively cancelled_world example_scraper ''https://x.dev/a'' 1 None
     = Inl (BaseException ''CancelledError'')"
  by (simp add: crawl_recursively_def extract_links_from_page_def extract_links_try_def
      cancelled_world_def example_world_def)

text \<open>
  Claim C7, amended. Link extraction never raises an instance of \<open>Exception\<close> to the
  traverser. When the fetch or the parser raises one, when anything else in the body of
  the \<open>try\<close> raises one, or when the selector is not found, it returns the empty list; the
  traversal then goes on with the rest of the queue, the page stays in \<open>all_urls\<close> and so
  is in the result, and no page is crawled twice. An exception that is not an instance of
  \<open>Exception\<close> (\<open>asyncio.CancelledError\<close>, \<open>KeyboardInterrupt\<close>, \<open>SystemExit\<close>) leaves link
  extraction as it is and ends the traversal.
\<close>

theorem extract_links_failure_isolated:
  "extract_links_from_page w s url selector \<noteq> Inl (Exception e')
   \<and> (fetch_url w url = Inl (Exception e)
        \<or> (\<exists>html. fetch_url w url = Inr html \<and> BeautifulSoup w html = Inl (Exception e))
        \<or> (\<exists>html soup. fetch_url w url = Inr html \<and> BeautifulSoup w html = Inr soup
              \<and> truthy selector \<and> select_one w soup (the selector) = Inr None)
        \<or> extract_links_try w s url selector = Inl (Exception e)
       \<longrightarrow>
         extract_links_from_page w s url selector = Inr []
         \<and> (url \<notin> all_urls \<and> depth \<le> D \<longrightarrow>
               crawl_loop (\<lambda>u. extract_links_from_page w s u selector) D ((url, depth) # to_visit)
                 all_urls crawled
               = crawl_loop (\<lambda>u. extract_links_from_page w s u selector) D to_visit
                 (insert url all_urls) (crawled @ [(url, depth)])
               \<and> (\<forall>r. crawl_loop (\<lambda>u. extract_links_from_page w s u selector) D
                          ((url, depth) # to_visit) all_urls crawled = Inr r
                        \<longrightarrow> url \<in> fst r)))
   \<and> (extract_links_try w s url selector = Inl (BaseException e)
       \<longrightarrow>
         extract_links_from_page w s url selector = Inl (BaseException e)
         \<and> (url \<notin> all_urls \<and> depth \<le> D \<longrightarrow>
               crawl_loop (\<lambda>u. extract_links_from_page w s u selector) D ((url, depth) # to_visit)
                 all_urls crawled
               = Inl (BaseException e)))
   \<and> (\<forall>r. crawl_recursively w s start D selector = Inr r \<longrightarrow> distinct (map fst (snd r)))"
proof -
  let ?X = "\<lambda>u. extract_links_from_page w s u selector"
  have n: "?X url \<noteq> Inl (Exception e')" by (rule extract_links_no_exception)
  have a: "?X url = Inr []"
    if "fetch_url w url = Inl (Exception e)
        \<or> (\<exists>html. fetch_url w url = Inr html \<and> BeautifulSoup w html = Inl (Exception e))
        \<or> (\<exists>html soup. fetch_url w url = Inr html \<and> BeautifulSoup w html = Inr soup
              \<and> truthy selector \<and> select_one w soup (the selector) = Inr None)
        \<or> extract_links_try w s url selector = Inl (Exception e)"
    using that
    by (auto simp: extract_links_from_page_def extract_links_try_def split: sum.splits option.splits)
  have b: "crawl_loop ?X D ((url, depth) # to_visit) all_urls crawled
            = crawl_loop ?X D to_visit (insert url all_urls) (crawled @ [(url, depth)])"
    if "?X url = Inr []" "url \<notin> all_urls" "depth \<le> D"
    using that by simp
  have c: "url \<in> fst r"
    if "?X url = Inr []" "url \<notin> all_urls" "depth \<le> D"
      "crawl_loop ?X D ((url, depth) # to_visit) all_urls crawled = Inr r" for r
    using crawl_loop_mono [of ?X D to_visit "insert url all_urls" "crawled @ [(url, depth)]" r]
      b [OF that(1,2,3)] that(4) by simp
  have d: "?X url = Inl (BaseException e)"
    if "extract_links_try w s url selector = Inl (BaseException e)"
    using that by (simp add: extract_links_from_page_def)
  have f: "crawl_loop ?X D ((url, depth) # to_visit) all_urls crawled = Inl (BaseException e)"
    if "?X url = Inl (BaseException e)" "url \<notin> all_urls" "depth \<le> D"
    using that by simp
  have g: "distinct (map fst (snd r))" if "crawl_recursively w s start D selector = Inr r" for r
    by (rule bfs_log_distinct [OF crawl_recursively_result(2) [OF that]])
  show ?thesis using n a b c d f g by blast
qed

theorem extract_links_failure_isolated_witness:
  "fetch_url example_world ''https://x.dev/missing'' = Inl (Exception ''fetch failed'')
   \<and> extract_links_from_page example_world example_scraper ''https://x.dev/missing'' None = Inr []
   \<and> crawl_loop (\<lambda>u. extract_links_from_page example_world example_scraper u None) 1
        [(''https://x.dev/missing'', 0), (''https://x.dev/b'', 0)] {} []
      = Inr ({''https://x.dev/missing'', ''https://x.dev/b'', ''https://x.dev/d''},
             [(''https://x.dev/missing'', 0), (''https://x.dev/b'', 0), (''https://x.dev/d'', 1)])"
proof -
  have f: "fetch_url example_world ''https://x.dev/missing'' = Inl (Exception ''fetch failed'')"
    by (simp add: example_world_def)
  from extract_links_failure_isolated [of example_world example_scraper "''https://x.dev/missing''"
      None "''''" "''fetch failed''" "{}" 0 1 "[(''https://x.dev/b'', 0)]" "[]"] f
  have e: "extract_links_from_page example_world example_scraper ''https://x.dev/missing'' None = Inr []"
    and g: "crawl_loop (\<lambda>u. extract_links_from_page example_world example_scraper u None) 1
              [(''https://x.dev/missing'', 0), (''https://x.dev/b'', 0)] {} []
          = crawl_loop (\<lambda>u. extract_links_from_page example_world example_scraper u None) 1
              [(''https://x.dev/b'', 0)] {''https://x.dev/missing''} [(''https://x.dev/missing'', 0)]"
    by simp_all
  have "crawl_loop (\<lambda>u. extract_links_from_page example_world example_scraper u None) 1
              [(''https://x.dev/b'', 0)] {''https://x.dev/missing''} [(''https://x.dev/missing'', 0)]
      = Inr ({''https://x.dev/missing'', ''https://x.dev/b'', ''https://x.dev/d''},
         [(''https://x.dev/missing'', 0), (''https://x.dev/b'', 0), (''https://x.dev/d'', 1)])"
    by (simp add: example_eval insert_commute)
  then show ?thesis using f e g by simp
qed

end
